theory Spec2Isabelle
  imports Complex_Main "HOL-Library.Signed_Division"
begin

section \<open>Cells, the matrix and the path record\<close>

text \<open>
  The cell markers are the character constants of \<^verbatim>\<open>mazelock.c\<close>. A cell of the matrix
  is a \<^typ>\<open>char\<close>, so a matrix may hold any byte, as the memory returned by
  \<^verbatim>\<open>malloc\<close> does.
\<close>

definition ENTRY :: char where "ENTRY = CHR ''S''"
definition EXIT :: char where "EXIT = CHR ''E''"
definition OPEN :: char where "OPEN = CHR '' ''"
definition CLOSED :: char where "CLOSED = CHR ''X''"
definition VISITED :: char where "VISITED = CHR ''.''"
definition PATH :: char where "PATH = CHR ''P''"

text \<open>
  \<^verbatim>\<open>char **matrix\<close> is read and written as \<^verbatim>\<open>matrix[row][col]\<close>; the model is a store
  from row and column to the character held there. The globals \<^verbatim>\<open>ROWS\<close> and \<^verbatim>\<open>COLS\<close> are
  set once in \<^verbatim>\<open>main\<close> and are passed to every function as its first two arguments.
  Every access of the source is guarded by a bounds test or happens inside the two
  \<^verbatim>\<open>for\<close> loops over \<^verbatim>\<open>0 .. ROWS-1\<close> and \<^verbatim>\<open>0 .. COLS-1\<close>.
\<close>

type_synonym matrix = "int \<Rightarrow> int \<Rightarrow> char"

definition set_cell :: "matrix \<Rightarrow> int \<Rightarrow> int \<Rightarrow> char \<Rightarrow> matrix" where
  "set_cell matrix row col v = matrix(row := (matrix row)(col := v))"

record Path =
  start_x :: int
  start_y :: int
  end_x :: int
  end_y :: int
  found :: bool

text \<open>\<^verbatim>\<open>Path path = {.found = false}\<close>: the members not named are zero.\<close>

definition path_init :: Path where
  "path_init = \<lparr>start_x = 0, start_y = 0, end_x = 0, end_y = 0, found = False\<rparr>"

definition in_bounds :: "int \<Rightarrow> int \<Rightarrow> int \<Rightarrow> int \<Rightarrow> bool" where
  "in_bounds ROWS COLS row col = (0 \<le> row \<and> row < ROWS \<and> 0 \<le> col \<and> col < COLS)"

text \<open>The test \<^verbatim>\<open>row == 0 || row == ROWS - 1 || col == 0 || col == COLS - 1\<close>.\<close>

definition on_border :: "int \<Rightarrow> int \<Rightarrow> int \<Rightarrow> int \<Rightarrow> bool" where
  "on_border ROWS COLS row col = (row = 0 \<or> row = ROWS - 1 \<or> col = 0 \<or> col = COLS - 1)"

section \<open>Loops and random numbers\<close>

text \<open>\<^verbatim>\<open>for (int i = lo; i < n; i++) body\<close>, the body acting on the state \<open>s\<close>.\<close>

function for_loop :: "int \<Rightarrow> int \<Rightarrow> (int \<Rightarrow> 's \<Rightarrow> 's) \<Rightarrow> 's \<Rightarrow> 's" where
  "for_loop i n body s = (if i < n then for_loop (i + 1) n body (body i s) else s)"
  by pat_completeness auto
termination
  by (relation "measure (\<lambda>(i, n, body, s). nat (n - i))") auto

declare for_loop.simps [simp del]

text \<open>
  The results of the successive calls of \<^verbatim>\<open>rand()\<close> are a sequence \<open>rnd\<close> of naturals
  (\<^verbatim>\<open>rand\<close> returns a value between 0 and \<^verbatim>\<open>RAND_MAX\<close>); the state of the generator is
  the index \<open>k\<close> of the next result.
\<close>

definition rand :: "(nat \<Rightarrow> nat) \<Rightarrow> nat \<Rightarrow> int \<times> nat" where
  "rand rnd k = (int (rnd k), Suc k)"

text \<open>\<^verbatim>\<open>RAND_MAX\<close> comes from the C library; this is the value of glibc.\<close>

definition RAND_MAX :: int where
  "RAND_MAX = 2147483647"


definition int32 :: "int \<Rightarrow> int" where
  "int32 x = (x + 2147483648) mod 4294967296 - 2147483648"

section \<open>The generator\<close>

subsection \<open>\<^verbatim>\<open>place_entry_exit_points\<close>\<close>

text \<open>
  \<^verbatim>\<open>do { exit_position = rand() % edge_length; } while (exit_position == entry_position);\<close>
  The loop ends only when a draw differs from the entry position: the value \<open>None\<close> stands
  for a loop that never ends. C's \<^verbatim>\<open>%\<close> truncates towards zero, which is \<open>smod\<close>.
\<close>

partial_function (option) draw_exit_position ::
  "(nat \<Rightarrow> nat) \<Rightarrow> nat \<Rightarrow> int \<Rightarrow> int \<Rightarrow> (int \<times> nat) option" where
  "draw_exit_position rnd k edge_length entry_position =
     (case rand rnd k of (r, k') \<Rightarrow>
        let exit_position = r smod edge_length in
        if exit_position = entry_position
        then draw_exit_position rnd k' edge_length entry_position
        else Some (exit_position, k'))"

declare draw_exit_position.simps [code]

text \<open>The body of the two loops over the cells; the state is the matrix, \<^verbatim>\<open>counter\<close>,
  \<^verbatim>\<open>entry_placed\<close> and \<^verbatim>\<open>exit_placed\<close>.\<close>

fun place_cell ::
  "int \<Rightarrow> int \<Rightarrow> int \<Rightarrow> int \<Rightarrow> int \<Rightarrow> int \<Rightarrow> matrix \<times> int \<times> bool \<times> bool \<Rightarrow>
   matrix \<times> int \<times> bool \<times> bool" where
  "place_cell ROWS COLS entry_position exit_position row col
       (matrix, counter, entry_placed, exit_placed) =
     (if on_border ROWS COLS row col then
        (if counter = entry_position \<and> \<not> entry_placed
           then (set_cell matrix row col ENTRY, counter + 1, True, exit_placed)
         else if counter = exit_position \<and> \<not> exit_placed
           then (set_cell matrix row col EXIT, counter + 1, entry_placed, True)
         else (matrix, counter + 1, entry_placed, exit_placed))
      else (matrix, counter, entry_placed, exit_placed))"

text \<open>
  The function returns the matrix and the state of the random generator.
  \<^verbatim>\<open>int edge_length = 2 * (ROWS + COLS) - 4\<close> is computed in the type \<^verbatim>\<open>int\<close>, each
  operation wrapping around. With \<^verbatim>\<open>edge_length\<close> zero the remainder
  \<^verbatim>\<open>rand() % edge_length\<close> is a division by zero, and the call does not return either.
\<close>

definition place_entry_exit_points ::
  "int \<Rightarrow> int \<Rightarrow> matrix \<Rightarrow> (nat \<Rightarrow> nat) \<Rightarrow> nat \<Rightarrow> (matrix \<times> nat) option" where
  "place_entry_exit_points ROWS COLS matrix rnd k =
     (let edge_length = int32 (int32 (2 * int32 (ROWS + COLS)) - 4) in
      if edge_length = 0 then None
      else
        case rand rnd k of (r, k1) \<Rightarrow>
        let entry_position = r smod edge_length in
        case draw_exit_position rnd k1 edge_length entry_position of
          None \<Rightarrow> None
        | Some (exit_position, k2) \<Rightarrow>
            case for_loop 0 ROWS (\<lambda>row.
                   for_loop 0 COLS (\<lambda>col.
                     place_cell ROWS COLS entry_position exit_position row col))
                   (matrix, 0, False, False)
            of (matrix', counter, entry_placed, exit_placed) \<Rightarrow> Some (matrix', k2))"

subsection \<open>\<^verbatim>\<open>count_adjacent_open_cells\<close> and \<^verbatim>\<open>is_valid_open_cell_placement\<close>\<close>

definition count_adjacent_open_cells :: "int \<Rightarrow> int \<Rightarrow> matrix \<Rightarrow> int \<Rightarrow> int \<Rightarrow> int" where
  "count_adjacent_open_cells ROWS COLS matrix row col =
     (if row > 0 \<and> matrix (row - 1) col = OPEN then 1 else 0) +
     (if row < ROWS - 1 \<and> matrix (row + 1) col = OPEN then 1 else 0) +
     (if col > 0 \<and> matrix row (col - 1) = OPEN then 1 else 0) +
     (if col < COLS - 1 \<and> matrix row (col + 1) = OPEN then 1 else 0)"

definition is_valid_open_cell_placement :: "int \<Rightarrow> int \<Rightarrow> matrix \<Rightarrow> int \<Rightarrow> int \<Rightarrow> bool" where
  "is_valid_open_cell_placement ROWS COLS matrix row col =
     (if matrix row col = ENTRY \<or> matrix row col = EXIT then False
      else if count_adjacent_open_cells ROWS COLS matrix row col > 1 then False
      else if (row > 0 \<and> row < ROWS - 1 \<and>
                 matrix (row - 1) col = OPEN \<and> matrix (row + 1) col = OPEN) \<or>
              (col > 0 \<and> col < COLS - 1 \<and>
                 matrix row (col - 1) = OPEN \<and> matrix row (col + 1) = OPEN) \<or>
              (row > 0 \<and> row < ROWS - 1 \<and> col > 0 \<and> col < COLS - 1 \<and>
                 matrix (row - 1) (col - 1) = OPEN \<and> matrix (row + 1) (col + 1) = OPEN) \<or>
              (row > 0 \<and> row < ROWS - 1 \<and> col > 0 \<and> col < COLS - 1 \<and>
                 matrix (row - 1) (col + 1) = OPEN \<and> matrix (row + 1) (col - 1) = OPEN)
        then False
      else if row > 1 \<and> matrix (row - 2) col = OPEN \<and> matrix (row - 1) col = OPEN then False
      else if row < ROWS - 2 \<and> matrix (row + 2) col = OPEN \<and> matrix (row + 1) col = OPEN
        then False
      else if col > 1 \<and> matrix row (col - 2) = OPEN \<and> matrix row (col - 1) = OPEN then False
      else if col < COLS - 2 \<and> matrix row (col + 2) = OPEN \<and> matrix row (col + 1) = OPEN
        then False
      else True)"

subsection \<open>\<^verbatim>\<open>randomize_matrix\<close> and \<^verbatim>\<open>generate_matrix\<close>\<close>

text \<open>
  The body of the fill loops, on the matrix and the state of the random generator.
  \<^verbatim>\<open>(double)rand() / (double)RAND_MAX\<close> is taken in the reals; \<^verbatim>\<open>continue\<close> leaves the
  state as it is.
\<close>

fun fill_cell ::
  "int \<Rightarrow> int \<Rightarrow> real \<Rightarrow> (nat \<Rightarrow> nat) \<Rightarrow> int \<Rightarrow> int \<Rightarrow> matrix \<times> nat \<Rightarrow> matrix \<times> nat" where
  "fill_cell ROWS COLS density rnd row col (matrix, k) =
     (if on_border ROWS COLS row col \<and> (matrix row col = ENTRY \<or> matrix row col = EXIT)
      then (matrix, k)
      else
        case rand rnd k of (r, k') \<Rightarrow>
        let random_value = real_of_int r / real_of_int RAND_MAX in
        if random_value \<le> density \<and> is_valid_open_cell_placement ROWS COLS matrix row col
        then (set_cell matrix row col OPEN, k')
        else (set_cell matrix row col CLOSED, k'))"

text \<open>The body of the loops that look for the entry and exit points; the state is
  \<^verbatim>\<open>entry_row\<close>, \<^verbatim>\<open>entry_col\<close>, \<^verbatim>\<open>exit_row\<close>, \<^verbatim>\<open>exit_col\<close>.\<close>

fun find_cell ::
  "matrix \<Rightarrow> int \<Rightarrow> int \<Rightarrow> int \<times> int \<times> int \<times> int \<Rightarrow> int \<times> int \<times> int \<times> int" where
  "find_cell matrix row col (entry_row, entry_col, exit_row, exit_col) =
     (if matrix row col = ENTRY then (row, col, exit_row, exit_col)
      else if matrix row col = EXIT then (entry_row, entry_col, row, col)
      else (entry_row, entry_col, exit_row, exit_col))"

definition fill_matrix ::
  "int \<Rightarrow> int \<Rightarrow> real \<Rightarrow> (nat \<Rightarrow> nat) \<Rightarrow> matrix \<times> nat \<Rightarrow> matrix \<times> nat" where
  "fill_matrix ROWS COLS density rnd =
     for_loop 0 ROWS (\<lambda>row. for_loop 0 COLS (\<lambda>col. fill_cell ROWS COLS density rnd row col))"

definition find_points :: "int \<Rightarrow> int \<Rightarrow> matrix \<Rightarrow> int \<times> int \<times> int \<times> int" where
  "find_points ROWS COLS matrix =
     for_loop 0 ROWS (\<lambda>row. for_loop 0 COLS (\<lambda>col. find_cell matrix row col)) (-1, -1, -1, -1)"

definition remove_points :: "matrix \<Rightarrow> int \<times> int \<times> int \<times> int \<Rightarrow> matrix" where
  "remove_points matrix p =
     (case p of (entry_row, entry_col, exit_row, exit_col) \<Rightarrow>
        let m1 = (if entry_row \<noteq> -1 \<and> entry_col \<noteq> -1
                  then set_cell matrix entry_row entry_col CLOSED else matrix)
        in if exit_row \<noteq> -1 \<and> exit_col \<noteq> -1 then set_cell m1 exit_row exit_col CLOSED else m1)"

definition randomize_matrix ::
  "int \<Rightarrow> int \<Rightarrow> matrix \<Rightarrow> real \<Rightarrow> (nat \<Rightarrow> nat) \<Rightarrow> nat \<Rightarrow> (matrix \<times> nat) option" where
  "randomize_matrix ROWS COLS matrix density rnd k =
     (case fill_matrix ROWS COLS density rnd (matrix, k) of (m1, k1) \<Rightarrow>
        place_entry_exit_points ROWS COLS
          (remove_points m1 (find_points ROWS COLS m1)) rnd k1)"

definition reset_matrix :: "int \<Rightarrow> int \<Rightarrow> matrix \<Rightarrow> matrix" where
  "reset_matrix ROWS COLS =
     for_loop 0 ROWS (\<lambda>row. for_loop 0 COLS (\<lambda>col matrix. set_cell matrix row col CLOSED))"

definition generate_matrix ::
  "int \<Rightarrow> int \<Rightarrow> matrix \<Rightarrow> real \<Rightarrow> (nat \<Rightarrow> nat) \<Rightarrow> nat \<Rightarrow> (matrix \<times> nat) option" where
  "generate_matrix ROWS COLS matrix density rnd k =
     randomize_matrix ROWS COLS (reset_matrix ROWS COLS matrix) density rnd k"

text \<open>
  \<^verbatim>\<open>matrix_generation_thread_func\<close> calls \<^verbatim>\<open>generate_matrix\<close> once and then
  \<^verbatim>\<open>randomize_matrix\<close> in a loop that never ends. \<open>generation_passes n\<close> is the matrix
  after the first pass and \<open>n\<close> rounds of the loop, when no search pass runs in between.
\<close>

fun generation_passes ::
  "int \<Rightarrow> int \<Rightarrow> real \<Rightarrow> (nat \<Rightarrow> nat) \<Rightarrow> nat \<Rightarrow> matrix \<Rightarrow> nat \<Rightarrow> (matrix \<times> nat) option" where
  "generation_passes ROWS COLS density rnd 0 matrix k =
     generate_matrix ROWS COLS matrix density rnd k"
| "generation_passes ROWS COLS density rnd (Suc n) matrix k =
     (case generation_passes ROWS COLS density rnd n matrix k of
        None \<Rightarrow> None
      | Some (m', k') \<Rightarrow> randomize_matrix ROWS COLS m' density rnd k')"

section \<open>The path finder\<close>

text \<open>The loop over \<^verbatim>\<open>directions[0..3]\<close> that ends at the first found path.\<close>

fun pick_direction :: "int \<Rightarrow> int \<Rightarrow> Path list \<Rightarrow> Path" where
  "pick_direction row col [] = path_init"
| "pick_direction row col (d # ds) =
     (if found d
      then \<lparr>start_x = row, start_y = col, end_x = end_x d, end_y = end_y d, found = True\<rparr>
      else pick_direction row col ds)"

text \<open>
  \<^verbatim>\<open>dfs\<close> returns the path and the matrix it has marked. The four recursive calls are the
  initialisers of the array \<^verbatim>\<open>directions\<close>, evaluated here in the order they are written
  (up, down, left, right), each on the matrix the call before has left.
\<close>

function dfs :: "int \<Rightarrow> int \<Rightarrow> matrix \<Rightarrow> int \<Rightarrow> int \<Rightarrow> Path \<times> matrix" where
  "dfs ROWS COLS matrix row col =
     (if row < 0 \<or> row \<ge> ROWS \<or> col < 0 \<or> col \<ge> COLS then (path_init, matrix)
      else if matrix row col = EXIT
        then (\<lparr>start_x = row, start_y = col, end_x = row, end_y = col, found = True\<rparr>, matrix)
      else if matrix row col = CLOSED \<or> matrix row col = VISITED then (path_init, matrix)
      else (case dfs ROWS COLS (set_cell matrix row col VISITED) (row - 1) col of (d0, m1) \<Rightarrow>
            case dfs ROWS COLS m1 (row + 1) col of (d1, m2) \<Rightarrow>
            case dfs ROWS COLS m2 row (col - 1) of (d2, m3) \<Rightarrow>
            case dfs ROWS COLS m3 row (col + 1) of (d3, m4) \<Rightarrow>
              (pick_direction row col [d0, d1, d2, d3], m4)))"
  by pat_completeness auto

text \<open>A cell at which \<^verbatim>\<open>dfs\<close> returns without marking it.\<close>

definition blocked :: "char \<Rightarrow> bool" where
  "blocked v = (v = EXIT \<or> v = CLOSED \<or> v = VISITED)"

definition passable_cells :: "int \<Rightarrow> int \<Rightarrow> matrix \<Rightarrow> (int \<times> int) set" where
  "passable_cells ROWS COLS m =
     {(r, c). in_bounds ROWS COLS r c \<and> \<not> blocked (m r c)}"

lemma cell_distinct [simp]:
  "ENTRY \<noteq> EXIT" "ENTRY \<noteq> OPEN" "ENTRY \<noteq> CLOSED" "ENTRY \<noteq> VISITED" "ENTRY \<noteq> PATH"
  "EXIT \<noteq> ENTRY" "EXIT \<noteq> OPEN" "EXIT \<noteq> CLOSED" "EXIT \<noteq> VISITED" "EXIT \<noteq> PATH"
  "OPEN \<noteq> ENTRY" "OPEN \<noteq> EXIT" "OPEN \<noteq> CLOSED" "OPEN \<noteq> VISITED" "OPEN \<noteq> PATH"
  "CLOSED \<noteq> ENTRY" "CLOSED \<noteq> EXIT" "CLOSED \<noteq> OPEN" "CLOSED \<noteq> VISITED" "CLOSED \<noteq> PATH"
  "VISITED \<noteq> ENTRY" "VISITED \<noteq> EXIT" "VISITED \<noteq> OPEN" "VISITED \<noteq> CLOSED" "VISITED \<noteq> PATH"
  "PATH \<noteq> ENTRY" "PATH \<noteq> EXIT" "PATH \<noteq> OPEN" "PATH \<noteq> CLOSED" "PATH \<noteq> VISITED"
  by (simp_all add: ENTRY_def EXIT_def OPEN_def CLOSED_def VISITED_def PATH_def)

lemma set_cell_apply:
  "set_cell m row col v r c = (if r = row \<and> c = col then v else m r c)"
  by (simp add: set_cell_def)

lemma finite_in_bounds: "finite {(r, c). in_bounds ROWS COLS r c}"
proof -
  have "{(r, c). in_bounds ROWS COLS r c} \<subseteq> {0..<ROWS} \<times> {0..<COLS}"
    by (auto simp: in_bounds_def)
  then show ?thesis by (rule finite_subset) simp
qed

lemma finite_passable_cells [simp]: "finite (passable_cells ROWS COLS m)"
  by (rule finite_subset [OF _ finite_in_bounds [of ROWS COLS]]) (auto simp: passable_cells_def)

text \<open>
  \<open>marks m m'\<close>: every cell of \<open>m'\<close> is as in \<open>m\<close>, or was passable in \<open>m\<close> and is
  \<^verbatim>\<open>VISITED\<close> in \<open>m'\<close>. Where \<^verbatim>\<open>dfs\<close> returns it changes the matrix in this way only,
  which is what the termination proof of the nested recursion needs.
\<close>

definition marks :: "int \<Rightarrow> int \<Rightarrow> matrix \<Rightarrow> matrix \<Rightarrow> bool" where
  "marks ROWS COLS m m' =
     (\<forall>r c. m' r c = m r c \<or> (in_bounds ROWS COLS r c \<and> \<not> blocked (m r c) \<and> m' r c = VISITED))"

lemma marks_refl: "marks ROWS COLS m m"
  by (simp add: marks_def)

lemma marks_trans [trans]:
  assumes "marks ROWS COLS m m1" "marks ROWS COLS m1 m2"
  shows "marks ROWS COLS m m2"
  unfolding marks_def
proof (intro allI)
  fix r c
  from assms have a: "m1 r c = m r c \<or> (in_bounds ROWS COLS r c \<and> \<not> blocked (m r c) \<and> m1 r c = VISITED)"
    and b: "m2 r c = m1 r c \<or> (in_bounds ROWS COLS r c \<and> \<not> blocked (m1 r c) \<and> m2 r c = VISITED)"
    by (simp_all add: marks_def)
  then show "m2 r c = m r c \<or> (in_bounds ROWS COLS r c \<and> \<not> blocked (m r c) \<and> m2 r c = VISITED)"
    by (auto simp: blocked_def)
qed

lemma marks_set_cell:
  assumes "in_bounds ROWS COLS row col" "\<not> blocked (m row col)"
  shows "marks ROWS COLS m (set_cell m row col VISITED)"
  using assms by (simp add: marks_def set_cell_apply)

lemma marks_passable:
  assumes "marks ROWS COLS m m'"
  shows "passable_cells ROWS COLS m' \<subseteq> passable_cells ROWS COLS m"
proof
  fix p assume p: "p \<in> passable_cells ROWS COLS m'"
  obtain r c where rc: "p = (r, c)" by (cases p)
  from p rc have ib: "in_bounds ROWS COLS r c" and nb: "\<not> blocked (m' r c)"
    by (simp_all add: passable_cells_def)
  from assms have "m' r c = m r c \<or> m' r c = VISITED"
    by (auto simp: marks_def)
  with nb have "\<not> blocked (m r c)" by (auto simp: blocked_def)
  with ib rc show "p \<in> passable_cells ROWS COLS m" by (simp add: passable_cells_def)
qed

lemma dfs_dom_marks:
  "dfs_dom (ROWS, COLS, m, row, col) \<Longrightarrow> marks ROWS COLS m (snd (dfs ROWS COLS m row col))"
proof (induction ROWS COLS m row col rule: dfs.pinduct)
  case (1 ROWS COLS m row col)
  show ?case
  proof (cases "row < 0 \<or> ROWS \<le> row \<or> col < 0 \<or> COLS \<le> col \<or> blocked (m row col)")
    case True
    then show ?thesis using 1(1) by (auto simp: dfs.psimps blocked_def marks_refl)
  next
    case False
    obtain d0 m1 where e0: "dfs ROWS COLS (set_cell m row col VISITED) (row - 1) col = (d0, m1)"
      by (cases "dfs ROWS COLS (set_cell m row col VISITED) (row - 1) col")
    obtain d1 m2 where e1: "dfs ROWS COLS m1 (row + 1) col = (d1, m2)"
      by (cases "dfs ROWS COLS m1 (row + 1) col")
    obtain d2 m3 where e2: "dfs ROWS COLS m2 row (col - 1) = (d2, m3)"
      by (cases "dfs ROWS COLS m2 row (col - 1)")
    obtain d3 m4 where e3: "dfs ROWS COLS m3 row (col + 1) = (d3, m4)"
      by (cases "dfs ROWS COLS m3 row (col + 1)")
    from False have nb: "\<not> (row < 0 \<or> ROWS \<le> row \<or> col < 0 \<or> COLS \<le> col)"
      "m row col \<noteq> EXIT" "\<not> (m row col = CLOSED \<or> m row col = VISITED)"
      by (auto simp: blocked_def)
    have res: "snd (dfs ROWS COLS m row col) = m4"
      using 1(1) nb e0 e1 e2 e3 by (simp add: dfs.psimps)
    have here: "in_bounds ROWS COLS row col" "\<not> blocked (m row col)"
      using False by (auto simp: in_bounds_def)
    have "marks ROWS COLS m (set_cell m row col VISITED)"
      using here by (rule marks_set_cell)
    also have "marks ROWS COLS (set_cell m row col VISITED) m1"
      using 1(2) [OF nb] unfolding e0 snd_conv .
    also have "marks ROWS COLS m1 m2"
      using 1(3) [OF nb e0 [symmetric]] unfolding e1 snd_conv .
    also have "marks ROWS COLS m2 m3"
      using 1(4) [OF nb e0 [symmetric] e1 [symmetric]] unfolding e2 snd_conv .
    also have "marks ROWS COLS m3 m4"
      using 1(5) [OF nb e0 [symmetric] e1 [symmetric] e2 [symmetric]] unfolding e3 snd_conv .
    finally show ?thesis unfolding res .
  qed
qed

lemma dfs_dom_measure:
  assumes "dfs_dom (ROWS, COLS, m, row, col)" and "(d, m') = dfs ROWS COLS m row col"
  shows "passable_cells ROWS COLS m' \<subseteq> passable_cells ROWS COLS m"
  using marks_passable [OF dfs_dom_marks [OF assms(1)]] assms(2) by (metis snd_conv)

lemma passable_cells_mark:
  assumes "in_bounds ROWS COLS row col" "\<not> blocked (m row col)"
  shows "passable_cells ROWS COLS (set_cell m row col VISITED) \<subset> passable_cells ROWS COLS m"
proof -
  have "(row, col) \<in> passable_cells ROWS COLS m" using assms by (simp add: passable_cells_def)
  moreover have "(row, col) \<notin> passable_cells ROWS COLS (set_cell m row col VISITED)"
    by (simp add: passable_cells_def blocked_def set_cell_apply)
  moreover have "passable_cells ROWS COLS (set_cell m row col VISITED) \<subseteq> passable_cells ROWS COLS m"
    using assms by (intro marks_passable marks_set_cell)
  ultimately show ?thesis by blast
qed

text \<open>Each call marks a passable cell first, so the number of passable cells decreases.\<close>

termination dfs
proof (relation "measure (\<lambda>(ROWS, COLS, m, row, col). card (passable_cells ROWS COLS m))",
    goal_cases)
  case 1
  show ?case by simp
next
  case (2 ROWS COLS m row col)
  then have "in_bounds ROWS COLS row col" "\<not> blocked (m row col)"
    by (auto simp: in_bounds_def blocked_def)
  from passable_cells_mark [of ROWS COLS row col m, OF this] show ?case
    by (simp add: psubset_card_mono)
next
  case (3 ROWS COLS m row col x y)
  then have ib: "in_bounds ROWS COLS row col" "\<not> blocked (m row col)"
    by (auto simp: in_bounds_def blocked_def)
  have "passable_cells ROWS COLS y \<subseteq> passable_cells ROWS COLS (set_cell m row col VISITED)"
    by (rule dfs_dom_measure [where row = "row - 1" and col = col and d = x]) (use 3 in simp_all)
  with passable_cells_mark [of ROWS COLS row col m, OF ib]
  have "passable_cells ROWS COLS y \<subset> passable_cells ROWS COLS m"
    by blast
  then show ?case by (simp add: psubset_card_mono)
next
  case (4 ROWS COLS m row col x y xa ya)
  then have ib: "in_bounds ROWS COLS row col" "\<not> blocked (m row col)"
    by (auto simp: in_bounds_def blocked_def)
  have "passable_cells ROWS COLS y \<subseteq> passable_cells ROWS COLS (set_cell m row col VISITED)"
    by (rule dfs_dom_measure [where row = "row - 1" and col = col and d = x]) (use 4 in simp_all)
  moreover have "passable_cells ROWS COLS ya \<subseteq> passable_cells ROWS COLS y"
    by (rule dfs_dom_measure [where row = "row + 1" and col = col and d = xa]) (use 4 in simp_all)
  ultimately have "passable_cells ROWS COLS ya \<subset> passable_cells ROWS COLS m"
    using passable_cells_mark [of ROWS COLS row col m, OF ib] by blast
  then show ?case by (simp add: psubset_card_mono)
next
  case (5 ROWS COLS m row col x y xa ya xb yb)
  then have ib: "in_bounds ROWS COLS row col" "\<not> blocked (m row col)"
    by (auto simp: in_bounds_def blocked_def)
  have "passable_cells ROWS COLS y \<subseteq> passable_cells ROWS COLS (set_cell m row col VISITED)"
    by (rule dfs_dom_measure [where row = "row - 1" and col = col and d = x]) (use 5 in simp_all)
  moreover have "passable_cells ROWS COLS ya \<subseteq> passable_cells ROWS COLS y"
    by (rule dfs_dom_measure [where row = "row + 1" and col = col and d = xa]) (use 5 in simp_all)
  moreover have "passable_cells ROWS COLS yb \<subseteq> passable_cells ROWS COLS ya"
    by (rule dfs_dom_measure [where row = row and col = "col - 1" and d = xb]) (use 5 in simp_all)
  ultimately have "passable_cells ROWS COLS yb \<subset> passable_cells ROWS COLS m"
    using passable_cells_mark [of ROWS COLS row col m, OF ib] by blast
  then show ?case by (simp add: psubset_card_mono)
qed

declare dfs.simps [simp del]

subsection \<open>\<^verbatim>\<open>find_path\<close>\<close>

text \<open>
  The inner loop of the search for the entry: it leaves at the first \<^verbatim>\<open>ENTRY\<close> on the
  border of the row (\<^verbatim>\<open>break\<close>) and returns its column.
\<close>

function find_entry_col :: "int \<Rightarrow> int \<Rightarrow> matrix \<Rightarrow> int \<Rightarrow> int \<Rightarrow> int option" where
  "find_entry_col ROWS COLS matrix row col =
     (if col < COLS then
        (if on_border ROWS COLS row col \<and> matrix row col = ENTRY then Some col
         else find_entry_col ROWS COLS matrix row (col + 1))
      else None)"
  by pat_completeness auto
termination
  by (relation "measure (\<lambda>(ROWS, COLS, matrix, row, col). nat (COLS - col))") auto

declare find_entry_col.simps [simp del]

text \<open>The outer loop, which leaves as soon as \<^verbatim>\<open>entry_found\<close> is set; the result is
  \<^verbatim>\<open>entry_row\<close>, \<^verbatim>\<open>entry_col\<close> and \<^verbatim>\<open>entry_found\<close>.\<close>

function find_entry :: "int \<Rightarrow> int \<Rightarrow> matrix \<Rightarrow> int \<Rightarrow> int \<times> int \<times> bool" where
  "find_entry ROWS COLS matrix row =
     (if row < ROWS then
        (case find_entry_col ROWS COLS matrix row 0 of
           Some col \<Rightarrow> (row, col, True)
         | None \<Rightarrow> find_entry ROWS COLS matrix (row + 1))
      else (-1, -1, False))"
  by pat_completeness auto
termination
  by (relation "measure (\<lambda>(ROWS, COLS, matrix, row). nat (ROWS - row))") auto

declare find_entry.simps [simp del]

text \<open>The line that \<^verbatim>\<open>find_path\<close> prints.\<close>

datatype report =
  Partial_path_found int int int int
| No_path_found
| Entry_point_not_found

definition find_path :: "int \<Rightarrow> int \<Rightarrow> matrix \<Rightarrow> report \<times> matrix" where
  "find_path ROWS COLS matrix =
     (case find_entry ROWS COLS matrix 0 of (entry_row, entry_col, entry_found) \<Rightarrow>
        if entry_row \<noteq> -1 \<and> entry_col \<noteq> -1 then
          (case dfs ROWS COLS matrix entry_row entry_col of (path, matrix') \<Rightarrow>
             if found path
             then (Partial_path_found (start_x path) (start_y path) (end_x path) (end_y path),
                   matrix')
             else (No_path_found, matrix'))
        else (Entry_point_not_found, matrix))"

section \<open>Concrete matrices\<close>

text \<open>
  \<open>matrix_of rows\<close> is the matrix whose rows are the given strings (and \<^verbatim>\<open>CLOSED\<close>
  elsewhere); \<open>matrix_rows\<close> reads the rows of a matrix back.
\<close>

definition matrix_of :: "string list \<Rightarrow> matrix" where
  "matrix_of rows r c =
     (if 0 \<le> r \<and> nat r < length rows \<and> 0 \<le> c \<and> nat c < length (rows ! nat r)
      then rows ! nat r ! nat c else CLOSED)"

definition matrix_rows :: "int \<Rightarrow> int \<Rightarrow> matrix \<Rightarrow> string list" where
  "matrix_rows ROWS COLS m = map (\<lambda>r. map (\<lambda>c. m r c) [0..COLS - 1]) [0..ROWS - 1]"

section \<open>What \<^verbatim>\<open>dfs\<close> does to the matrix\<close>

lemma dfs_marks: "marks ROWS COLS m (snd (dfs ROWS COLS m row col))"
proof (induction ROWS COLS m row col rule: dfs.induct)
  case (1 ROWS COLS m row col)
  show ?case
  proof (cases "row < 0 \<or> ROWS \<le> row \<or> col < 0 \<or> COLS \<le> col \<or> blocked (m row col)")
    case True
    then have "dfs ROWS COLS m row col = (fst (dfs ROWS COLS m row col), m)"
      by (subst (1 2) dfs.simps) (auto simp: blocked_def)
    then have "snd (dfs ROWS COLS m row col) = m" by (metis snd_conv)
    then show ?thesis by (simp add: marks_refl)
  next
    case False
    obtain d0 m1 where e0: "dfs ROWS COLS (set_cell m row col VISITED) (row - 1) col = (d0, m1)"
      by (cases "dfs ROWS COLS (set_cell m row col VISITED) (row - 1) col")
    obtain d1 m2 where e1: "dfs ROWS COLS m1 (row + 1) col = (d1, m2)"
      by (cases "dfs ROWS COLS m1 (row + 1) col")
    obtain d2 m3 where e2: "dfs ROWS COLS m2 row (col - 1) = (d2, m3)"
      by (cases "dfs ROWS COLS m2 row (col - 1)")
    obtain d3 m4 where e3: "dfs ROWS COLS m3 row (col + 1) = (d3, m4)"
      by (cases "dfs ROWS COLS m3 row (col + 1)")
    from False have nb: "\<not> (row < 0 \<or> ROWS \<le> row \<or> col < 0 \<or> COLS \<le> col)"
      "m row col \<noteq> EXIT" "\<not> (m row col = CLOSED \<or> m row col = VISITED)"
      by (auto simp: blocked_def)
    have res: "snd (dfs ROWS COLS m row col) = m4"
      using nb e0 e1 e2 e3 by (subst dfs.simps) simp
    have here: "in_bounds ROWS COLS row col" "\<not> blocked (m row col)"
      using False by (auto simp: in_bounds_def)
    have "marks ROWS COLS m (set_cell m row col VISITED)"
      using here by (rule marks_set_cell)
    also have "marks ROWS COLS (set_cell m row col VISITED) m1"
      using 1(1) [OF nb] unfolding e0 snd_conv .
    also have "marks ROWS COLS m1 m2"
      using 1(2) [OF nb e0 [symmetric]] unfolding e1 snd_conv .
    also have "marks ROWS COLS m2 m3"
      using 1(3) [OF nb e0 [symmetric] e1 [symmetric]] unfolding e2 snd_conv .
    also have "marks ROWS COLS m3 m4"
      using 1(4) [OF nb e0 [symmetric] e1 [symmetric] e2 [symmetric]] unfolding e3 snd_conv .
    finally show ?thesis unfolding res .
  qed
qed

lemma marksD:
  assumes "marks ROWS COLS m m'"
  shows "m' r c = m r c \<or> (in_bounds ROWS COLS r c \<and> \<not> blocked (m r c) \<and> m' r c = VISITED)"
  using assms by (simp add: marks_def)

lemma marks_blocked:
  assumes "marks ROWS COLS m m'" "blocked (m r c)"
  shows "m' r c = m r c"
  using marksD [OF assms(1), of r c] assms(2) by auto

lemma marks_before:
  assumes "marks ROWS COLS m m'" "\<not> blocked (m' r c)"
  shows "m r c = m' r c"
  using marksD [OF assms(1), of r c] assms(2) by (auto simp: blocked_def)

lemma marks_exit:
  assumes "marks ROWS COLS m m'"
  shows "m' r c = EXIT \<longleftrightarrow> m r c = EXIT"
  using marksD [OF assms(1), of r c] by (auto simp: blocked_def)

lemma dfs_stops:
  assumes "\<not> in_bounds ROWS COLS row col \<or> blocked (m row col)"
  shows "dfs ROWS COLS m row col =
    (if in_bounds ROWS COLS row col \<and> m row col = EXIT
     then \<lparr>start_x = row, start_y = col, end_x = row, end_y = col, found = True\<rparr>
     else path_init, m)"
  using assms by (subst dfs.simps) (auto simp: in_bounds_def blocked_def)

lemma dfs_expands:
  assumes "in_bounds ROWS COLS row col" "\<not> blocked (m row col)"
  obtains d0 m1 d1 m2 d2 m3 d3 m4 where
    "dfs ROWS COLS (set_cell m row col VISITED) (row - 1) col = (d0, m1)"
    "dfs ROWS COLS m1 (row + 1) col = (d1, m2)"
    "dfs ROWS COLS m2 row (col - 1) = (d2, m3)"
    "dfs ROWS COLS m3 row (col + 1) = (d3, m4)"
    "dfs ROWS COLS m row col = (pick_direction row col [d0, d1, d2, d3], m4)"
proof -
  obtain d0 m1 where e0: "dfs ROWS COLS (set_cell m row col VISITED) (row - 1) col = (d0, m1)"
    by (cases "dfs ROWS COLS (set_cell m row col VISITED) (row - 1) col")
  obtain d1 m2 where e1: "dfs ROWS COLS m1 (row + 1) col = (d1, m2)"
    by (cases "dfs ROWS COLS m1 (row + 1) col")
  obtain d2 m3 where e2: "dfs ROWS COLS m2 row (col - 1) = (d2, m3)"
    by (cases "dfs ROWS COLS m2 row (col - 1)")
  obtain d3 m4 where e3: "dfs ROWS COLS m3 row (col + 1) = (d3, m4)"
    by (cases "dfs ROWS COLS m3 row (col + 1)")
  have "dfs ROWS COLS m row col = (pick_direction row col [d0, d1, d2, d3], m4)"
    using assms e0 e1 e2 e3 by (subst dfs.simps) (simp add: in_bounds_def blocked_def)
  with e0 e1 e2 e3 show thesis by (rule that)
qed

lemma dfs_visits_cell:
  assumes "in_bounds ROWS COLS row col" "\<not> blocked (m row col)"
  shows "snd (dfs ROWS COLS m row col) row col = VISITED"
proof -
  from assms obtain d0 m1 d1 m2 d2 m3 d3 m4 where
    e: "dfs ROWS COLS (set_cell m row col VISITED) (row - 1) col = (d0, m1)"
    "dfs ROWS COLS m1 (row + 1) col = (d1, m2)"
    "dfs ROWS COLS m2 row (col - 1) = (d2, m3)"
    "dfs ROWS COLS m3 row (col + 1) = (d3, m4)"
    and res: "dfs ROWS COLS m row col = (pick_direction row col [d0, d1, d2, d3], m4)"
    by (rule dfs_expands)
  have "marks ROWS COLS (set_cell m row col VISITED) m1"
    using dfs_marks [of ROWS COLS "set_cell m row col VISITED" "row - 1" col] e(1) by simp
  also have "marks ROWS COLS m1 m2" using dfs_marks [of ROWS COLS m1 "row + 1" col] e(2) by simp
  also have "marks ROWS COLS m2 m3" using dfs_marks [of ROWS COLS m2 row "col - 1"] e(3) by simp
  also have "marks ROWS COLS m3 m4" using dfs_marks [of ROWS COLS m3 row "col + 1"] e(4) by simp
  finally have "m4 row col = set_cell m row col VISITED row col"
    by (rule marks_blocked) (simp add: set_cell_apply blocked_def)
  then show ?thesis by (simp add: res set_cell_apply)
qed

lemma dfs_blocks:
  assumes "in_bounds ROWS COLS row col"
  shows "blocked (snd (dfs ROWS COLS m row col) row col)"
proof (cases "blocked (m row col)")
  case True
  then show ?thesis by (simp add: dfs_stops)
next
  case False
  with assms show ?thesis by (simp add: dfs_visits_cell blocked_def)
qed


lemma pick_direction_found:
  assumes "found (pick_direction row col ds)"
  shows "\<exists>d \<in> set ds. found d \<and>
    pick_direction row col ds =
      \<lparr>start_x = row, start_y = col, end_x = end_x d, end_y = end_y d, found = True\<rparr>"
  using assms by (induction ds) (auto simp: path_init_def)

lemma pick_direction_not_found:
  "\<not> found (pick_direction row col ds) \<longleftrightarrow> (\<forall>d \<in> set ds. \<not> found d)"
  by (induction ds) (auto simp: path_init_def)

lemma dfs_found:
  "found (fst (dfs ROWS COLS m row col)) \<Longrightarrow>
   start_x (fst (dfs ROWS COLS m row col)) = row \<and>
   start_y (fst (dfs ROWS COLS m row col)) = col \<and>
   in_bounds ROWS COLS (end_x (fst (dfs ROWS COLS m row col))) (end_y (fst (dfs ROWS COLS m row col))) \<and>
   m (end_x (fst (dfs ROWS COLS m row col))) (end_y (fst (dfs ROWS COLS m row col))) = EXIT"
proof (induction ROWS COLS m row col rule: dfs.induct)
  case (1 ROWS COLS m row col)
  show ?case
  proof (cases "\<not> in_bounds ROWS COLS row col \<or> blocked (m row col)")
    case True
    from dfs_stops [of ROWS COLS row col m, OF True] "1.prems" show ?thesis
      by (auto simp: path_init_def split: if_splits)
  next
    case False
    obtain d0 m1 where e0: "dfs ROWS COLS (set_cell m row col VISITED) (row - 1) col = (d0, m1)"
      by (cases "dfs ROWS COLS (set_cell m row col VISITED) (row - 1) col")
    obtain d1 m2 where e1: "dfs ROWS COLS m1 (row + 1) col = (d1, m2)"
      by (cases "dfs ROWS COLS m1 (row + 1) col")
    obtain d2 m3 where e2: "dfs ROWS COLS m2 row (col - 1) = (d2, m3)"
      by (cases "dfs ROWS COLS m2 row (col - 1)")
    obtain d3 m4 where e3: "dfs ROWS COLS m3 row (col + 1) = (d3, m4)"
      by (cases "dfs ROWS COLS m3 row (col + 1)")
    from False have nb: "\<not> (row < 0 \<or> ROWS \<le> row \<or> col < 0 \<or> COLS \<le> col)"
      "m row col \<noteq> EXIT" "\<not> (m row col = CLOSED \<or> m row col = VISITED)"
      by (auto simp: blocked_def in_bounds_def)
    from False have here: "in_bounds ROWS COLS row col" "\<not> blocked (m row col)" by auto
    have res: "dfs ROWS COLS m row col = (pick_direction row col [d0, d1, d2, d3], m4)"
      using nb e0 e1 e2 e3 by (subst dfs.simps) simp
    have k0: "marks ROWS COLS m (set_cell m row col VISITED)"
      using here by (rule marks_set_cell)
    have k1: "marks ROWS COLS m m1"
      using k0 dfs_marks [of ROWS COLS "set_cell m row col VISITED" "row - 1" col] e0
      by (auto intro: marks_trans)
    have k2: "marks ROWS COLS m m2"
      using k1 dfs_marks [of ROWS COLS m1 "row + 1" col] e1 by (auto intro: marks_trans)
    have k3: "marks ROWS COLS m m3"
      using k2 dfs_marks [of ROWS COLS m2 row "col - 1"] e2 by (auto intro: marks_trans)
    have i0: "found d0 \<Longrightarrow> in_bounds ROWS COLS (end_x d0) (end_y d0) \<and> m (end_x d0) (end_y d0) = EXIT"
      using 1(1) [OF nb] e0 marks_exit [OF k0] by simp
    have i1: "found d1 \<Longrightarrow> in_bounds ROWS COLS (end_x d1) (end_y d1) \<and> m (end_x d1) (end_y d1) = EXIT"
      using 1(2) [OF nb e0 [symmetric]] e1 marks_exit [OF k1] by simp
    have i2: "found d2 \<Longrightarrow> in_bounds ROWS COLS (end_x d2) (end_y d2) \<and> m (end_x d2) (end_y d2) = EXIT"
      using 1(3) [OF nb e0 [symmetric] e1 [symmetric]] e2 marks_exit [OF k2] by simp
    have i3: "found d3 \<Longrightarrow> in_bounds ROWS COLS (end_x d3) (end_y d3) \<and> m (end_x d3) (end_y d3) = EXIT"
      using 1(4) [OF nb e0 [symmetric] e1 [symmetric] e2 [symmetric]] e3 marks_exit [OF k3] by simp
    from "1.prems" res have "found (pick_direction row col [d0, d1, d2, d3])" by simp
    from pick_direction_found [OF this] obtain d where
      d: "d \<in> set [d0, d1, d2, d3]" "found d"
      "pick_direction row col [d0, d1, d2, d3] =
         \<lparr>start_x = row, start_y = col, end_x = end_x d, end_y = end_y d, found = True\<rparr>"
      by blast
    from d(1,2) i0 i1 i2 i3
    have "in_bounds ROWS COLS (end_x d) (end_y d) \<and> m (end_x d) (end_y d) = EXIT" by auto
    then show ?thesis unfolding res fst_conv d(3) by simp
  qed
qed

subsection \<open>The search for the entry\<close>

lemma find_entry_col_Some:
  "find_entry_col ROWS COLS m row col = Some c \<Longrightarrow>
   col \<le> c \<and> c < COLS \<and> on_border ROWS COLS row c \<and> m row c = ENTRY"
proof (induction ROWS COLS m row col rule: find_entry_col.induct)
  case (1 ROWS COLS m row col)
  from "1.prems" show ?case
    by (subst (asm) find_entry_col.simps) (use "1.IH" in \<open>auto split: if_splits\<close>)
qed

lemma find_entry_col_None:
  "find_entry_col ROWS COLS m row col = None \<Longrightarrow> col \<le> c \<Longrightarrow> c < COLS \<Longrightarrow>
   \<not> (on_border ROWS COLS row c \<and> m row c = ENTRY)"
proof (induction ROWS COLS m row col rule: find_entry_col.induct)
  case (1 ROWS COLS m row col)
  from "1.prems"(1) have
    a: "col < COLS \<Longrightarrow> \<not> (on_border ROWS COLS row col \<and> m row col = ENTRY)" and
    b: "col < COLS \<Longrightarrow> find_entry_col ROWS COLS m row (col + 1) = None"
    by (subst (asm) find_entry_col.simps; simp split: if_splits)+
  show ?case
  proof (cases "c = col")
    case True
    with a "1.prems" show ?thesis by simp
  next
    case False
    with "1.prems" have "col + 1 \<le> c" "col < COLS" by simp_all
    with "1.IH" [of ] a b "1.prems" show ?thesis by simp
  qed
qed

lemma find_entry_result:
  "0 \<le> row \<Longrightarrow> find_entry ROWS COLS m row = (er, ec, ef) \<Longrightarrow>
   (if ef then in_bounds ROWS COLS er ec \<and> on_border ROWS COLS er ec \<and> m er ec = ENTRY
    else er = -1 \<and> ec = -1 \<and>
      (\<forall>r c. row \<le> r \<and> r < ROWS \<and> 0 \<le> c \<and> c < COLS \<longrightarrow>
         \<not> (on_border ROWS COLS r c \<and> m r c = ENTRY)))"
proof (induction ROWS COLS m row rule: find_entry.induct)
  case (1 ROWS COLS m row)
  show ?case
  proof (cases "row < ROWS")
    case False
    with "1.prems" show ?thesis
      by (subst (asm) find_entry.simps) auto
  next
    case True
    show ?thesis
    proof (cases "find_entry_col ROWS COLS m row 0")
      case (Some c)
      with True "1.prems" have "er = row" "ec = c" "ef"
        by (subst (asm) find_entry.simps; simp)+
      with find_entry_col_Some [OF Some] True "1.prems"(1) show ?thesis
        by (simp add: in_bounds_def)
    next
      case None
      with True "1.prems" have next_row: "find_entry ROWS COLS m (row + 1) = (er, ec, ef)"
        by (subst (asm) find_entry.simps) simp
      have ih: "if ef then in_bounds ROWS COLS er ec \<and> on_border ROWS COLS er ec \<and> m er ec = ENTRY
        else er = -1 \<and> ec = -1 \<and>
          (\<forall>r c. row + 1 \<le> r \<and> r < ROWS \<and> 0 \<le> c \<and> c < COLS \<longrightarrow>
             \<not> (on_border ROWS COLS r c \<and> m r c = ENTRY))"
        using "1.IH" [OF True None _ next_row] "1.prems"(1) by simp
      show ?thesis
      proof (cases ef)
        case True
        with ih show ?thesis by simp
      next
        case False
        have "\<not> (on_border ROWS COLS r c \<and> m r c = ENTRY)"
          if "row \<le> r" "r < ROWS" "0 \<le> c" "c < COLS" for r c
        proof (cases "r = row")
          case True
          with find_entry_col_None [OF None, of c] that show ?thesis by simp
        next
          case neq: False
          with that ih False show ?thesis by simp
        qed
        with ih False show ?thesis by simp
      qed
    qed
  qed
qed

lemmas cell_defs = ENTRY_def EXIT_def OPEN_def CLOSED_def VISITED_def PATH_def

lemma matrix_of_cases: "matrix_of rows r c = CLOSED \<or> matrix_of rows r c \<in> set (concat rows)"
proof (cases "0 \<le> r \<and> nat r < length rows \<and> 0 \<le> c \<and> nat c < length (rows ! nat r)")
  case True
  then have "rows ! nat r \<in> set rows" "rows ! nat r ! nat c \<in> set (rows ! nat r)" by simp_all
  then have "rows ! nat r ! nat c \<in> set (concat rows)" by auto
  with True show ?thesis by (simp add: matrix_of_def)
next
  case False
  then have "matrix_of rows r c = CLOSED" unfolding matrix_of_def by (rule if_not_P)
  then show ?thesis by simp
qed

lemma find_path_no_entry:
  assumes "find_entry ROWS COLS m 0 = (er, ec, False)"
  shows "find_path ROWS COLS m = (Entry_point_not_found, m)"
  using find_entry_result [OF _ assms] assms by (simp add: find_path_def)

lemma find_path_entry:
  assumes "find_entry ROWS COLS m 0 = (er, ec, True)"
  shows "find_path ROWS COLS m =
    (if found (fst (dfs ROWS COLS m er ec))
     then (Partial_path_found er ec (end_x (fst (dfs ROWS COLS m er ec)))
             (end_y (fst (dfs ROWS COLS m er ec))),
           snd (dfs ROWS COLS m er ec))
     else (No_path_found, snd (dfs ROWS COLS m er ec)))"
proof -
  from find_entry_result [OF _ assms] have "er \<noteq> -1" "ec \<noteq> -1"
    by (auto simp: in_bounds_def)
  then show ?thesis
    using assms dfs_found [of ROWS COLS m er ec]
    by (auto simp: find_path_def split: prod.splits)
qed

section \<open>The claims about the search\<close>

text \<open>
  C7. On a grid with no \<^verbatim>\<open>ENTRY\<close> marker the search pass reports "Entry point not found"
  and leaves the matrix as it is. The report "No path found" is a different outcome: it
  is given only when the scan has found an \<^verbatim>\<open>ENTRY\<close> cell and \<^verbatim>\<open>dfs\<close> from that cell has
  not reached an \<^verbatim>\<open>EXIT\<close>.
\<close>

theorem entry_not_found_report:
  "((\<forall>r c. in_bounds ROWS COLS r c \<longrightarrow> m r c \<noteq> ENTRY) \<longrightarrow>
      find_path ROWS COLS m = (Entry_point_not_found, m)) \<and>
   (fst (find_path ROWS COLS m) = No_path_found \<longrightarrow>
      (\<exists>er ec. find_entry ROWS COLS m 0 = (er, ec, True) \<and> in_bounds ROWS COLS er ec \<and>
         m er ec = ENTRY \<and> \<not> found (fst (dfs ROWS COLS m er ec))))"
proof -
  obtain er ec ef where fe: "find_entry ROWS COLS m 0 = (er, ec, ef)"
    by (cases "find_entry ROWS COLS m 0")
  show ?thesis
  proof (cases ef)
    case True
    with find_entry_result [OF _ fe] have e: "in_bounds ROWS COLS er ec" "m er ec = ENTRY"
      by simp_all
    from fe True have "find_entry ROWS COLS m 0 = (er, ec, True)" by simp
    note fp = find_path_entry [OF this]
    from e fp fe True show ?thesis by (auto split: if_splits)
  next
    case False
    with fe have "find_path ROWS COLS m = (Entry_point_not_found, m)"
      by (simp add: find_path_no_entry)
    then show ?thesis by simp
  qed
qed

theorem entry_not_found_report_witness:
  "find_path 3 3 (matrix_of [''XXX'', ''X X'', ''XEX'']) =
     (Entry_point_not_found, matrix_of [''XXX'', ''X X'', ''XEX'']) \<and>
   fst (find_path 3 3 (matrix_of [''XSX'', ''XXX'', ''XEX''])) = No_path_found \<and>
   (\<exists>er ec. find_entry 3 3 (matrix_of [''XSX'', ''XXX'', ''XEX'']) 0 = (er, ec, True) \<and>
      in_bounds 3 3 er ec \<and> matrix_of [''XSX'', ''XXX'', ''XEX''] er ec = ENTRY \<and>
      \<not> found (fst (dfs 3 3 (matrix_of [''XSX'', ''XXX'', ''XEX'']) er ec)))"
proof -
  have a: "\<forall>r c. in_bounds 3 3 r c \<longrightarrow> matrix_of [''XXX'', ''X X'', ''XEX''] r c \<noteq> ENTRY"
  proof (intro allI impI)
    fix r c
    from matrix_of_cases [of "[''XXX'', ''X X'', ''XEX'']" r c]
    show "matrix_of [''XXX'', ''X X'', ''XEX''] r c \<noteq> ENTRY"
      by (auto simp: cell_defs)
  qed
  have b: "fst (find_path 3 3 (matrix_of [''XSX'', ''XXX'', ''XEX''])) = No_path_found"
    by (simp add: find_path_def find_entry.simps find_entry_col.simps on_border_def
        dfs.simps matrix_of_def cell_defs set_cell_apply path_init_def)
  from a b entry_not_found_report [of 3 3 "matrix_of [''XXX'', ''X X'', ''XEX'']"]
    entry_not_found_report [of 3 3 "matrix_of [''XSX'', ''XXX'', ''XEX'']"]
  show ?thesis by blast
qed

text \<open>
  C4 (amended). Every frame of \<^verbatim>\<open>dfs\<close> that finds a path writes its own coordinates into
  \<^verbatim>\<open>start_x\<close>, \<^verbatim>\<open>start_y\<close>, and the frame that returns to \<^verbatim>\<open>find_path\<close> is the one
  called at the entry cell. So whenever the search reports a path, the start it reports
  is the entry cell that the scan has found (a border cell holding \<^verbatim>\<open>ENTRY\<close>), and the
  end it reports is a cell holding \<^verbatim>\<open>EXIT\<close>: the reported start never differs from the
  entry cell.
\<close>

theorem reported_start_is_entry:
  assumes "fst (find_path ROWS COLS m) = Partial_path_found sx sy ex ey"
  shows "find_entry ROWS COLS m 0 = (sx, sy, True) \<and> in_bounds ROWS COLS sx sy \<and>
    on_border ROWS COLS sx sy \<and> m sx sy = ENTRY \<and>
    in_bounds ROWS COLS ex ey \<and> m ex ey = EXIT"
proof -
  obtain er ec ef where fe: "find_entry ROWS COLS m 0 = (er, ec, ef)"
    by (cases "find_entry ROWS COLS m 0")
  have ef
  proof (rule ccontr)
    assume "\<not> ef"
    with fe assms show False by (simp add: find_path_no_entry)
  qed
  with fe have fe': "find_entry ROWS COLS m 0 = (er, ec, True)" by simp
  from find_entry_result [OF _ fe'] have
    e: "in_bounds ROWS COLS er ec" "on_border ROWS COLS er ec" "m er ec = ENTRY"
    by simp_all
  from assms find_path_entry [OF fe'] have
    f: "found (fst (dfs ROWS COLS m er ec))" and "sx = er" "sy = ec"
    and "ex = end_x (fst (dfs ROWS COLS m er ec))" "ey = end_y (fst (dfs ROWS COLS m er ec))"
    by (auto split: if_splits)
  with dfs_found [OF f] e fe' show ?thesis by simp
qed

theorem reported_start_is_entry_witness:
  "fst (find_path 3 3 (matrix_of [''XSX'', ''X X'', ''XEX''])) = Partial_path_found 0 1 2 1 \<and>
   find_entry 3 3 (matrix_of [''XSX'', ''X X'', ''XEX'']) 0 = (0, 1, True) \<and>
   in_bounds 3 3 0 1 \<and> on_border 3 3 0 1 \<and> matrix_of [''XSX'', ''X X'', ''XEX''] 0 1 = ENTRY \<and>
   in_bounds 3 3 2 1 \<and> matrix_of [''XSX'', ''X X'', ''XEX''] 2 1 = EXIT"
proof -
  have "fst (find_path 3 3 (matrix_of [''XSX'', ''X X'', ''XEX''])) = Partial_path_found 0 1 2 1"
    by (simp add: find_path_def find_entry.simps find_entry_col.simps on_border_def
        dfs.simps matrix_of_def cell_defs set_cell_apply path_init_def)
  with reported_start_is_entry [of 3 3 "matrix_of [''XSX'', ''X X'', ''XEX'']" 0 1 2 1]
  show ?thesis by simp
qed

text \<open>
  C4 as stated fails: on this grid the path is found by the frame at the cell (1, 1)
  below the entry, whose own result has start (1, 1); the result that \<^verbatim>\<open>find_path\<close>
  reports has the coordinates (0, 1) of the entry cell as its start.
\<close>

theorem reported_start_counterexample:
  "fst (find_path 3 3 (matrix_of [''XSX'', ''X X'', ''XEX''])) = Partial_path_found 0 1 2 1 \<and>
   matrix_of [''XSX'', ''X X'', ''XEX''] 0 1 = ENTRY \<and>
   fst (dfs 3 3 (set_cell (matrix_of [''XSX'', ''X X'', ''XEX'']) 0 1 VISITED) 1 1) =
     \<lparr>start_x = 1, start_y = 1, end_x = 2, end_y = 1, found = True\<rparr>"
  by (simp add: find_path_def find_entry.simps find_entry_col.simps on_border_def
      dfs.simps matrix_of_def cell_defs set_cell_apply path_init_def)

lemma find_path_without_entry:
  assumes "\<forall>r c. in_bounds ROWS COLS r c \<and> on_border ROWS COLS r c \<longrightarrow> m r c \<noteq> ENTRY"
  shows "find_path ROWS COLS m = (Entry_point_not_found, m)"
proof -
  obtain er ec ef where fe: "find_entry ROWS COLS m 0 = (er, ec, ef)"
    by (cases "find_entry ROWS COLS m 0")
  have "\<not> ef"
  proof
    assume ef
    with find_entry_result [OF _ fe] assms show False by auto
  qed
  with fe show ?thesis by (simp add: find_path_no_entry)
qed

lemma all_in_bounds:
  "(\<forall>r c. in_bounds ROWS COLS r c \<longrightarrow> P r c) \<longleftrightarrow>
   list_all (\<lambda>r. list_all (\<lambda>c. P r c) [0..COLS - 1]) [0..ROWS - 1]"
  by (auto simp: in_bounds_def list_all_iff)

text \<open>
  C10. A search pass that locates the entry marks that cell \<^verbatim>\<open>VISITED\<close>, and never
  changes which cells hold \<^verbatim>\<open>EXIT\<close>. When the grid holds no other \<^verbatim>\<open>ENTRY\<close> marker
  (as after a generation pass), the grid that the search leaves holds no \<^verbatim>\<open>ENTRY\<close>
  marker at all, still holds its \<^verbatim>\<open>EXIT\<close> markers, and a second search pass on it
  reports "Entry point not found".
\<close>

theorem search_destroys_entry:
  assumes "fst (find_path ROWS COLS m) \<noteq> Entry_point_not_found"
  shows "\<exists>er ec. find_entry ROWS COLS m 0 = (er, ec, True) \<and> m er ec = ENTRY \<and>
    snd (find_path ROWS COLS m) er ec = VISITED \<and>
    (\<forall>r c. snd (find_path ROWS COLS m) r c = EXIT \<longleftrightarrow> m r c = EXIT) \<and>
    ((\<forall>r c. in_bounds ROWS COLS r c \<and> m r c = ENTRY \<longrightarrow> r = er \<and> c = ec) \<longrightarrow>
       (\<forall>r c. in_bounds ROWS COLS r c \<longrightarrow> snd (find_path ROWS COLS m) r c \<noteq> ENTRY) \<and>
       fst (find_path ROWS COLS (snd (find_path ROWS COLS m))) = Entry_point_not_found)"
proof -
  obtain er ec ef where fe: "find_entry ROWS COLS m 0 = (er, ec, ef)"
    by (cases "find_entry ROWS COLS m 0")
  have ef
  proof (rule ccontr)
    assume "\<not> ef"
    with fe assms show False by (simp add: find_path_no_entry)
  qed
  with fe have fe': "find_entry ROWS COLS m 0 = (er, ec, True)" by simp
  from find_entry_result [OF _ fe'] have
    e: "in_bounds ROWS COLS er ec" "m er ec = ENTRY"
    by simp_all
  define m' where "m' = snd (find_path ROWS COLS m)"
  have m': "m' = snd (dfs ROWS COLS m er ec)"
    unfolding m'_def by (simp add: find_path_entry [OF fe'])
  have mk: "marks ROWS COLS m m'" unfolding m' by (rule dfs_marks)
  from e have nb: "\<not> blocked (m er ec)" by (simp add: blocked_def)
  have v: "m' er ec = VISITED"
    unfolding m' using e(1) nb by (rule dfs_visits_cell)
  have x: "\<forall>r c. m' r c = EXIT \<longleftrightarrow> m r c = EXIT"
    using marks_exit [OF mk] by simp
  have u: "(\<forall>r c. in_bounds ROWS COLS r c \<longrightarrow> m' r c \<noteq> ENTRY) \<and>
      fst (find_path ROWS COLS m') = Entry_point_not_found"
    if uniq: "\<forall>r c. in_bounds ROWS COLS r c \<and> m r c = ENTRY \<longrightarrow> r = er \<and> c = ec"
  proof -
    have none: "m' r c \<noteq> ENTRY" if "in_bounds ROWS COLS r c" for r c
    proof (cases "r = er \<and> c = ec")
      case True
      with v show ?thesis by simp
    next
      case False
      with uniq that have "m r c \<noteq> ENTRY" by blast
      with marksD [OF mk, of r c] show ?thesis by auto
    qed
    then have "\<forall>r c. in_bounds ROWS COLS r c \<longrightarrow> m' r c \<noteq> ENTRY" by blast
    moreover from this have "find_path ROWS COLS m' = (Entry_point_not_found, m')"
      by (intro find_path_without_entry) blast
    ultimately show ?thesis by simp
  qed
  from fe' e(2) v x u show ?thesis unfolding m'_def by blast
qed


theorem search_destroys_entry_witness:
  "fst (find_path 3 3 (matrix_of [''XSX'', ''X X'', ''XEX''])) \<noteq> Entry_point_not_found \<and>
   matrix_of [''XSX'', ''X X'', ''XEX''] 0 1 = ENTRY \<and>
   snd (find_path 3 3 (matrix_of [''XSX'', ''X X'', ''XEX''])) 0 1 = VISITED \<and>
   snd (find_path 3 3 (matrix_of [''XSX'', ''X X'', ''XEX''])) 2 1 = EXIT \<and>
   fst (find_path 3 3 (snd (find_path 3 3 (matrix_of [''XSX'', ''X X'', ''XEX''])))) =
     Entry_point_not_found"
proof -
  let ?g = "matrix_of [''XSX'', ''X X'', ''XEX'']"
  have a: "fst (find_path 3 3 ?g) \<noteq> Entry_point_not_found"
    by (simp add: find_path_def find_entry.simps find_entry_col.simps on_border_def
        dfs.simps matrix_of_def cell_defs set_cell_apply path_init_def)
  have b: "find_entry 3 3 ?g 0 = (0, 1, True)"
    by (simp add: find_entry.simps find_entry_col.simps on_border_def matrix_of_def cell_defs)
  have "\<forall>r c. in_bounds 3 3 r c \<longrightarrow> (?g r c = ENTRY \<longrightarrow> r = 0 \<and> c = 1)"
    unfolding all_in_bounds by (simp add: upto_rec1 matrix_of_def cell_defs)
  then have c: "\<forall>r c. in_bounds 3 3 r c \<and> ?g r c = ENTRY \<longrightarrow> r = 0 \<and> c = 1"
    by blast
  have d: "?g 2 1 = EXIT" by (simp add: matrix_of_def cell_defs)
  from search_destroys_entry [OF a] b c d a show ?thesis by auto
qed

text \<open>
  C5 (amended). At every cell that \<^verbatim>\<open>dfs\<close> expands, the four neighbours are searched in
  the order up, down, left, right, each on the matrix left by the one before, and the
  path reported is that of the first direction in this order that has found one. All
  four directions are searched whether or not an earlier one has succeeded: the matrix
  returned is the one left by the search to the right, and afterwards no neighbour
  inside the grid is left passable (each is \<^verbatim>\<open>EXIT\<close>, \<^verbatim>\<open>CLOSED\<close> or \<^verbatim>\<open>VISITED\<close>).
\<close>

theorem dfs_explores_all_directions:
  assumes "in_bounds ROWS COLS row col" "\<not> blocked (m row col)"
  shows "(\<forall>(r, c) \<in> {(row - 1, col), (row + 1, col), (row, col - 1), (row, col + 1)}.
            in_bounds ROWS COLS r c \<longrightarrow> blocked (snd (dfs ROWS COLS m row col) r c)) \<and>
    (let m0 = set_cell m row col VISITED;
         m1 = snd (dfs ROWS COLS m0 (row - 1) col);
         m2 = snd (dfs ROWS COLS m1 (row + 1) col);
         m3 = snd (dfs ROWS COLS m2 row (col - 1))
     in dfs ROWS COLS m row col =
          (pick_direction row col
             [fst (dfs ROWS COLS m0 (row - 1) col), fst (dfs ROWS COLS m1 (row + 1) col),
              fst (dfs ROWS COLS m2 row (col - 1)), fst (dfs ROWS COLS m3 row (col + 1))],
           snd (dfs ROWS COLS m3 row (col + 1))))"
proof -
  from assms obtain d0 m1 d1 m2 d2 m3 d3 m4 where
    e: "dfs ROWS COLS (set_cell m row col VISITED) (row - 1) col = (d0, m1)"
    "dfs ROWS COLS m1 (row + 1) col = (d1, m2)"
    "dfs ROWS COLS m2 row (col - 1) = (d2, m3)"
    "dfs ROWS COLS m3 row (col + 1) = (d3, m4)"
    and res: "dfs ROWS COLS m row col = (pick_direction row col [d0, d1, d2, d3], m4)"
    by (rule dfs_expands)
  have k1: "marks ROWS COLS m1 m2" using dfs_marks [of ROWS COLS m1 "row + 1" col] e(2) by simp
  have k2: "marks ROWS COLS m2 m3" using dfs_marks [of ROWS COLS m2 row "col - 1"] e(3) by simp
  have k3: "marks ROWS COLS m3 m4" using dfs_marks [of ROWS COLS m3 row "col + 1"] e(4) by simp
  have up: "blocked (m4 (row - 1) col)" if "in_bounds ROWS COLS (row - 1) col"
  proof -
    from dfs_blocks [OF that, of "set_cell m row col VISITED"] e(1)
    have "blocked (m1 (row - 1) col)" by simp
    then have "blocked (m2 (row - 1) col)" using marks_blocked [OF k1] by simp
    then have "blocked (m3 (row - 1) col)" using marks_blocked [OF k2] by simp
    then show ?thesis using marks_blocked [OF k3] by simp
  qed
  have down: "blocked (m4 (row + 1) col)" if "in_bounds ROWS COLS (row + 1) col"
  proof -
    from dfs_blocks [OF that, of m1] e(2) have "blocked (m2 (row + 1) col)" by simp
    then have "blocked (m3 (row + 1) col)" using marks_blocked [OF k2] by simp
    then show ?thesis using marks_blocked [OF k3] by simp
  qed
  have left: "blocked (m4 row (col - 1))" if "in_bounds ROWS COLS row (col - 1)"
  proof -
    from dfs_blocks [OF that, of m2] e(3) have "blocked (m3 row (col - 1))" by simp
    then show ?thesis using marks_blocked [OF k3] by simp
  qed
  have right: "blocked (m4 row (col + 1))" if "in_bounds ROWS COLS row (col + 1)"
    using dfs_blocks [OF that, of m3] e(4) by simp
  from up down left right e res show ?thesis by simp
qed

theorem dfs_explores_all_directions_witness:
  "in_bounds 3 3 1 0 \<and> \<not> blocked (matrix_of [''EXX'', ''SXX'', '' XX''] 1 0) \<and>
   blocked (snd (dfs 3 3 (matrix_of [''EXX'', ''SXX'', '' XX'']) 1 0) 0 0) \<and>
   blocked (snd (dfs 3 3 (matrix_of [''EXX'', ''SXX'', '' XX'']) 1 0) 2 0) \<and>
   blocked (snd (dfs 3 3 (matrix_of [''EXX'', ''SXX'', '' XX'']) 1 0) 1 1)"
proof -
  have a: "in_bounds 3 3 1 0" by (simp add: in_bounds_def)
  have b: "\<not> blocked (matrix_of [''EXX'', ''SXX'', '' XX''] 1 0)"
    by (simp add: blocked_def matrix_of_def cell_defs)
  from dfs_explores_all_directions [of 3 3 1 0 "matrix_of [''EXX'', ''SXX'', '' XX'']", OF a b] a b
  show ?thesis
    by (simp add: in_bounds_def)
qed

text \<open>
  C5 as stated fails: the four calls of \<^verbatim>\<open>dfs\<close> are made before the loop over
  \<^verbatim>\<open>directions\<close> looks at their results. Here the entry is at (1, 0) and the search
  upwards finds the exit at once; the open cell (2, 0), which only the search downwards
  reaches, is \<^verbatim>\<open>VISITED\<close> afterwards all the same.
\<close>

theorem short_circuit_counterexample:
  "found (fst (dfs 3 3 (set_cell (matrix_of [''EXX'', ''SXX'', '' XX'']) 1 0 VISITED) 0 0)) \<and>
   matrix_of [''EXX'', ''SXX'', '' XX''] 2 0 = OPEN \<and>
   snd (dfs 3 3 (matrix_of [''EXX'', ''SXX'', '' XX'']) 1 0) 2 0 = VISITED"
  by (simp add: dfs.simps matrix_of_def cell_defs set_cell_apply path_init_def)


subsection \<open>The cells a search expands\<close>

text \<open>
  The cells at which a call of \<^verbatim>\<open>dfs\<close> passes the three tests and marks the cell, in the
  order of the calls: the cell itself, then the cells expanded by the four recursive
  calls, each made on the matrix that the call before it has left.
\<close>

function dfs_expanded :: "int \<Rightarrow> int \<Rightarrow> matrix \<Rightarrow> int \<Rightarrow> int \<Rightarrow> (int \<times> int) list" where
  "dfs_expanded ROWS COLS matrix row col =
     (if row < 0 \<or> row \<ge> ROWS \<or> col < 0 \<or> col \<ge> COLS then []
      else if matrix row col = EXIT then []
      else if matrix row col = CLOSED \<or> matrix row col = VISITED then []
      else
        (let m0 = set_cell matrix row col VISITED;
             m1 = snd (dfs ROWS COLS m0 (row - 1) col);
             m2 = snd (dfs ROWS COLS m1 (row + 1) col);
             m3 = snd (dfs ROWS COLS m2 row (col - 1))
         in (row, col) # dfs_expanded ROWS COLS m0 (row - 1) col @
              dfs_expanded ROWS COLS m1 (row + 1) col @
              dfs_expanded ROWS COLS m2 row (col - 1) @
              dfs_expanded ROWS COLS m3 row (col + 1)))"
  by pat_completeness auto
termination
proof (relation "measure (\<lambda>(ROWS, COLS, m, row, col). card (passable_cells ROWS COLS m))",
    goal_cases)
  case 1
  show ?case by simp
next
  case (2 ROWS COLS m row col m0)
  then have ib: "in_bounds ROWS COLS row col" "\<not> blocked (m row col)"
    by (auto simp: in_bounds_def blocked_def)
  from passable_cells_mark [of ROWS COLS row col m, OF ib] 2 show ?case
    by (simp add: psubset_card_mono)
next
  case (3 ROWS COLS m row col m0 m1)
  then have ib: "in_bounds ROWS COLS row col" "\<not> blocked (m row col)"
    by (auto simp: in_bounds_def blocked_def)
  have "passable_cells ROWS COLS m1 \<subseteq> passable_cells ROWS COLS m0"
    unfolding 3 by (intro marks_passable dfs_marks)
  with passable_cells_mark [of ROWS COLS row col m, OF ib] 3
  have "passable_cells ROWS COLS m1 \<subset> passable_cells ROWS COLS m" by simp
  then show ?case by (simp add: psubset_card_mono)
next
  case (4 ROWS COLS m row col m0 m1 m2)
  then have ib: "in_bounds ROWS COLS row col" "\<not> blocked (m row col)"
    by (auto simp: in_bounds_def blocked_def)
  have "passable_cells ROWS COLS m1 \<subseteq> passable_cells ROWS COLS m0"
    unfolding 4 by (intro marks_passable dfs_marks)
  moreover have "passable_cells ROWS COLS m2 \<subseteq> passable_cells ROWS COLS m1"
    unfolding 4 by (intro marks_passable dfs_marks)
  ultimately have "passable_cells ROWS COLS m2 \<subset> passable_cells ROWS COLS m"
    using passable_cells_mark [of ROWS COLS row col m, OF ib] 4 by simp
  then show ?case by (simp add: psubset_card_mono)
next
  case (5 ROWS COLS m row col m0 m1 m2 m3)
  then have ib: "in_bounds ROWS COLS row col" "\<not> blocked (m row col)"
    by (auto simp: in_bounds_def blocked_def)
  have "passable_cells ROWS COLS m1 \<subseteq> passable_cells ROWS COLS m0"
    unfolding 5 by (intro marks_passable dfs_marks)
  moreover have "passable_cells ROWS COLS m2 \<subseteq> passable_cells ROWS COLS m1"
    unfolding 5 by (intro marks_passable dfs_marks)
  moreover have "passable_cells ROWS COLS m3 \<subseteq> passable_cells ROWS COLS m2"
    unfolding 5 by (intro marks_passable dfs_marks)
  ultimately have "passable_cells ROWS COLS m3 \<subset> passable_cells ROWS COLS m"
    using passable_cells_mark [of ROWS COLS row col m, OF ib] 5 by simp
  then show ?case by (simp add: psubset_card_mono)
qed

declare dfs_expanded.simps [simp del]


lemma dfs_expanded_stops:
  assumes "\<not> in_bounds ROWS COLS row col \<or> blocked (m row col)"
  shows "dfs_expanded ROWS COLS m row col = []"
  using assms by (subst dfs_expanded.simps) (auto simp: in_bounds_def blocked_def)

text \<open>The four matrices of an expanding call, the marks between them, and the result.\<close>

lemma dfs_steps:
  assumes "m0 = set_cell m row col VISITED"
    and "m1 = snd (dfs ROWS COLS m0 (row - 1) col)"
    and "m2 = snd (dfs ROWS COLS m1 (row + 1) col)"
    and "m3 = snd (dfs ROWS COLS m2 row (col - 1))"
    and "m4 = snd (dfs ROWS COLS m3 row (col + 1))"
    and "in_bounds ROWS COLS row col" "\<not> blocked (m row col)"
  shows "snd (dfs ROWS COLS m row col) = m4"
    and "dfs_expanded ROWS COLS m row col =
      (row, col) # dfs_expanded ROWS COLS m0 (row - 1) col @ dfs_expanded ROWS COLS m1 (row + 1) col @
        dfs_expanded ROWS COLS m2 row (col - 1) @ dfs_expanded ROWS COLS m3 row (col + 1)"
    and "marks ROWS COLS m0 m1" "marks ROWS COLS m1 m2" "marks ROWS COLS m2 m3"
      "marks ROWS COLS m3 m4"
proof -
  show "snd (dfs ROWS COLS m row col) = m4"
    using assms(6,7) unfolding assms(1-5)
    by (subst dfs.simps) (simp add: in_bounds_def blocked_def split: prod.splits)
  show "dfs_expanded ROWS COLS m row col =
      (row, col) # dfs_expanded ROWS COLS m0 (row - 1) col @ dfs_expanded ROWS COLS m1 (row + 1) col @
        dfs_expanded ROWS COLS m2 row (col - 1) @ dfs_expanded ROWS COLS m3 row (col + 1)"
    using assms(6,7) unfolding assms(1-4)
    by (subst dfs_expanded.simps) (simp add: in_bounds_def blocked_def Let_def)
  show "marks ROWS COLS m0 m1" "marks ROWS COLS m1 m2" "marks ROWS COLS m2 m3"
    "marks ROWS COLS m3 m4"
    unfolding assms(2-5) by (rule dfs_marks)+
qed

lemma set_dfs_expanded:
  "set (dfs_expanded ROWS COLS m row col) = {(r, c). snd (dfs ROWS COLS m row col) r c \<noteq> m r c}"
proof (induction ROWS COLS m row col rule: dfs_expanded.induct)
  case (1 ROWS COLS m row col)
  show ?case
  proof (cases "\<not> in_bounds ROWS COLS row col \<or> blocked (m row col)")
    case True
    then show ?thesis
      by (simp add: dfs_expanded_stops dfs_stops [of ROWS COLS row col m])
  next
    case False
    then have here: "in_bounds ROWS COLS row col" "\<not> blocked (m row col)" by auto
    from False have nb: "\<not> (row < 0 \<or> ROWS \<le> row \<or> col < 0 \<or> COLS \<le> col)"
      "m row col \<noteq> EXIT" "\<not> (m row col = CLOSED \<or> m row col = VISITED)"
      by (auto simp: blocked_def in_bounds_def)
    define m0 where "m0 = set_cell m row col VISITED"
    define m1 where "m1 = snd (dfs ROWS COLS m0 (row - 1) col)"
    define m2 where "m2 = snd (dfs ROWS COLS m1 (row + 1) col)"
    define m3 where "m3 = snd (dfs ROWS COLS m2 row (col - 1))"
    define m4 where "m4 = snd (dfs ROWS COLS m3 row (col + 1))"
    note st = dfs_steps [OF m0_def m1_def m2_def m3_def m4_def here]
    have i0: "set (dfs_expanded ROWS COLS m0 (row - 1) col) = {(r, c). m1 r c \<noteq> m0 r c}"
      using "1.IH"(1) [OF nb m0_def] by (simp add: m1_def)
    have i1: "set (dfs_expanded ROWS COLS m1 (row + 1) col) = {(r, c). m2 r c \<noteq> m1 r c}"
      using "1.IH"(2) [OF nb m0_def m1_def] by (simp add: m2_def)
    have i2: "set (dfs_expanded ROWS COLS m2 row (col - 1)) = {(r, c). m3 r c \<noteq> m2 r c}"
      using "1.IH"(3) [OF nb m0_def m1_def m2_def] by (simp add: m3_def)
    have i3: "set (dfs_expanded ROWS COLS m3 row (col + 1)) = {(r, c). m4 r c \<noteq> m3 r c}"
      using "1.IH"(4) [OF nb m0_def m1_def m2_def m3_def] by (simp add: m4_def)
    have "(m4 r c \<noteq> m r c) \<longleftrightarrow>
        (r = row \<and> c = col) \<or> m1 r c \<noteq> m0 r c \<or> m2 r c \<noteq> m1 r c \<or> m3 r c \<noteq> m2 r c \<or>
        m4 r c \<noteq> m3 r c" for r c
      using marksD [OF st(3), of r c] marksD [OF st(4), of r c] marksD [OF st(5), of r c]
        marksD [OF st(6), of r c] here(2)
      by (auto simp: m0_def set_cell_apply blocked_def)
    then show ?thesis
      unfolding st(1) st(2) by (auto simp: i0 i1 i2 i3)
  qed
qed

lemma distinct_dfs_expanded: "distinct (dfs_expanded ROWS COLS m row col)"
proof (induction ROWS COLS m row col rule: dfs_expanded.induct)
  case (1 ROWS COLS m row col)
  show ?case
  proof (cases "\<not> in_bounds ROWS COLS row col \<or> blocked (m row col)")
    case True
    then show ?thesis by (simp add: dfs_expanded_stops)
  next
    case False
    then have here: "in_bounds ROWS COLS row col" "\<not> blocked (m row col)" by auto
    from False have nb: "\<not> (row < 0 \<or> ROWS \<le> row \<or> col < 0 \<or> COLS \<le> col)"
      "m row col \<noteq> EXIT" "\<not> (m row col = CLOSED \<or> m row col = VISITED)"
      by (auto simp: blocked_def in_bounds_def)
    define m0 where "m0 = set_cell m row col VISITED"
    define m1 where "m1 = snd (dfs ROWS COLS m0 (row - 1) col)"
    define m2 where "m2 = snd (dfs ROWS COLS m1 (row + 1) col)"
    define m3 where "m3 = snd (dfs ROWS COLS m2 row (col - 1))"
    define m4 where "m4 = snd (dfs ROWS COLS m3 row (col + 1))"
    note st = dfs_steps [OF m0_def m1_def m2_def m3_def m4_def here]
    have d: "distinct (dfs_expanded ROWS COLS m0 (row - 1) col)"
      "distinct (dfs_expanded ROWS COLS m1 (row + 1) col)"
      "distinct (dfs_expanded ROWS COLS m2 row (col - 1))"
      "distinct (dfs_expanded ROWS COLS m3 row (col + 1))"
      using "1.IH"(1) [OF nb m0_def] "1.IH"(2) [OF nb m0_def m1_def]
        "1.IH"(3) [OF nb m0_def m1_def m2_def] "1.IH"(4) [OF nb m0_def m1_def m2_def m3_def]
      by simp_all
    have s: "set (dfs_expanded ROWS COLS m0 (row - 1) col) = {(r, c). m1 r c \<noteq> m0 r c}"
      "set (dfs_expanded ROWS COLS m1 (row + 1) col) = {(r, c). m2 r c \<noteq> m1 r c}"
      "set (dfs_expanded ROWS COLS m2 row (col - 1)) = {(r, c). m3 r c \<noteq> m2 r c}"
      "set (dfs_expanded ROWS COLS m3 row (col + 1)) = {(r, c). m4 r c \<noteq> m3 r c}"
      by (simp_all add: set_dfs_expanded m1_def m2_def m3_def m4_def)
    have once: "\<not> (m1 r c \<noteq> m0 r c \<and> m2 r c \<noteq> m1 r c) \<and> \<not> (m1 r c \<noteq> m0 r c \<and> m3 r c \<noteq> m2 r c) \<and>
        \<not> (m1 r c \<noteq> m0 r c \<and> m4 r c \<noteq> m3 r c) \<and> \<not> (m2 r c \<noteq> m1 r c \<and> m3 r c \<noteq> m2 r c) \<and>
        \<not> (m2 r c \<noteq> m1 r c \<and> m4 r c \<noteq> m3 r c) \<and> \<not> (m3 r c \<noteq> m2 r c \<and> m4 r c \<noteq> m3 r c)" for r c
      using marksD [OF st(3), of r c] marksD [OF st(4), of r c] marksD [OF st(5), of r c]
        marksD [OF st(6), of r c]
      by (auto simp: blocked_def)
    have cell: "m1 row col = m0 row col \<and> m2 row col = m1 row col \<and> m3 row col = m2 row col \<and>
        m4 row col = m3 row col"
      using marksD [OF st(3), of row col] marksD [OF st(4), of row col]
        marksD [OF st(5), of row col] marksD [OF st(6), of row col]
      by (auto simp: m0_def set_cell_apply blocked_def)
    show ?thesis
      unfolding st(2) using d once cell by (auto simp: s)
  qed
qed

lemma card_in_bounds: "card {(r, c). in_bounds ROWS COLS r c} = nat ROWS * nat COLS"
proof -
  have "{(r, c). in_bounds ROWS COLS r c} = {0..<ROWS} \<times> {0..<COLS}"
    by (auto simp: in_bounds_def)
  then show ?thesis by (simp add: card_cartesian_product)
qed

lemma dfs_expanded_cells:
  assumes "(r, c) \<in> set (dfs_expanded ROWS COLS m row col)"
  shows "in_bounds ROWS COLS r c \<and> \<not> blocked (m r c) \<and> snd (dfs ROWS COLS m row col) r c = VISITED"
  using assms marksD [OF dfs_marks [of ROWS COLS m row col], of r c]
  by (auto simp: set_dfs_expanded)

lemma length_dfs_expanded: "length (dfs_expanded ROWS COLS m row col) \<le> nat ROWS * nat COLS"
proof -
  have "set (dfs_expanded ROWS COLS m row col) \<subseteq> {(r, c). in_bounds ROWS COLS r c}"
    using dfs_expanded_cells [of _ _ ROWS COLS m row col] by auto
  then have "card (set (dfs_expanded ROWS COLS m row col)) \<le> card {(r, c). in_bounds ROWS COLS r c}"
    by (intro card_mono finite_in_bounds)
  then show ?thesis
    by (simp add: distinct_card [OF distinct_dfs_expanded] card_in_bounds)
qed

text \<open>
  C6. \<^verbatim>\<open>dfs\<close> is a total function: its recursion ends because every expanding call
  first marks a passable cell. No cell is expanded twice, the expanded cells are
  exactly the cells the search has changed (each was passable and is \<^verbatim>\<open>VISITED\<close>
  afterwards), so there are at most \<open>ROWS \<times> COLS\<close> of them, and a call at a cell that is
  already \<^verbatim>\<open>VISITED\<close> returns at once without expanding anything.
\<close>

theorem dfs_never_revisits:
  "distinct (dfs_expanded ROWS COLS m row col) \<and>
   length (dfs_expanded ROWS COLS m row col) \<le> nat ROWS * nat COLS \<and>
   set (dfs_expanded ROWS COLS m row col) = {(r, c). snd (dfs ROWS COLS m row col) r c \<noteq> m r c} \<and>
   (\<forall>(r, c) \<in> set (dfs_expanded ROWS COLS m row col).
      in_bounds ROWS COLS r c \<and> \<not> blocked (m r c) \<and> snd (dfs ROWS COLS m row col) r c = VISITED) \<and>
   (m row col = VISITED \<longrightarrow>
      dfs ROWS COLS m row col = (path_init, m) \<and> dfs_expanded ROWS COLS m row col = [])"
proof -
  have "dfs ROWS COLS m row col = (path_init, m) \<and> dfs_expanded ROWS COLS m row col = []"
    if "m row col = VISITED"
    using that dfs_stops [of ROWS COLS row col m] dfs_expanded_stops [of ROWS COLS row col m]
    by (simp add: blocked_def)
  moreover have "\<forall>(r, c) \<in> set (dfs_expanded ROWS COLS m row col).
      in_bounds ROWS COLS r c \<and> \<not> blocked (m r c) \<and> snd (dfs ROWS COLS m row col) r c = VISITED"
    using dfs_expanded_cells [of _ _ ROWS COLS m row col] by blast
  ultimately show ?thesis
    using distinct_dfs_expanded [of ROWS COLS m row col]
      length_dfs_expanded [of ROWS COLS m row col] set_dfs_expanded [of ROWS COLS m row col]
    by simp
qed

theorem dfs_never_revisits_witness:
  "dfs_expanded 3 3 (matrix_of [''EXX'', ''SXX'', ''  X'']) 1 0 = [(1, 0), (2, 0), (2, 1)] \<and>
   distinct (dfs_expanded 3 3 (matrix_of [''EXX'', ''SXX'', ''  X'']) 1 0) \<and>
   length (dfs_expanded 3 3 (matrix_of [''EXX'', ''SXX'', ''  X'']) 1 0) \<le> nat 3 * nat 3 \<and>
   snd (dfs 3 3 (matrix_of [''EXX'', ''SXX'', ''  X'']) 1 0) 2 1 = VISITED \<and>
   matrix_of [''.XX'', ''SXX'', ''  X''] 0 0 = VISITED \<and>
   dfs 3 3 (matrix_of [''.XX'', ''SXX'', ''  X'']) 0 0 =
     (path_init, matrix_of [''.XX'', ''SXX'', ''  X'']) \<and>
   dfs_expanded 3 3 (matrix_of [''.XX'', ''SXX'', ''  X'']) 0 0 = []"
proof -
  have a: "dfs_expanded 3 3 (matrix_of [''EXX'', ''SXX'', ''  X'']) 1 0 = [(1, 0), (2, 0), (2, 1)]"
    by (simp add: dfs_expanded.simps dfs.simps matrix_of_def cell_defs set_cell_apply
        path_init_def Let_def)
  have b: "matrix_of [''.XX'', ''SXX'', ''  X''] 0 0 = VISITED"
    by (simp add: matrix_of_def cell_defs)
  from dfs_never_revisits [of 3 3 "matrix_of [''EXX'', ''SXX'', ''  X'']" 1 0]
    dfs_never_revisits [of 3 3 "matrix_of [''.XX'', ''SXX'', ''  X'']" 0 0] a b
  show ?thesis by auto
qed

section \<open>Rules for the loops\<close>

lemma for_loop_rule:
  assumes "P i s" "i \<le> n"
    and "\<And>j t. i \<le> j \<Longrightarrow> j < n \<Longrightarrow> P j t \<Longrightarrow> P (j + 1) (body j t)"
  shows "P n (for_loop i n body s)"
  using assms
proof (induction i n body s rule: for_loop.induct)
  case (1 i n body s)
  show ?case
  proof (cases "i < n")
    case True
    have "P n (for_loop (i + 1) n body (body i s))"
    proof (rule "1.IH" [OF True])
      show "P (i + 1) (body i s)" using "1.prems"(1,3) True by simp
      show "i + 1 \<le> n" using True by simp
      show "P (j + 1) (body j t)" if "i + 1 \<le> j" "j < n" "P j t" for j t
        using that "1.prems"(3) [of j t] by simp
    qed
    with True show ?thesis by (subst for_loop.simps) simp
  next
    case False
    with "1.prems"(1,2) show ?thesis by (subst for_loop.simps) simp
  qed
qed

lemma for_loop_skip: "n \<le> i \<Longrightarrow> for_loop i n body s = s"
  by (subst for_loop.simps) simp

text \<open>The rule for the two nested loops over the cells, in row-major order.\<close>

lemma for_loop2_rule:
  assumes init: "P 0 0 s" and dims: "0 \<le> ROWS" "0 \<le> COLS"
    and step: "\<And>row col t. 0 \<le> row \<Longrightarrow> row < ROWS \<Longrightarrow> 0 \<le> col \<Longrightarrow> col < COLS \<Longrightarrow>
        P row col t \<Longrightarrow> P row (col + 1) (body row col t)"
    and wrap: "\<And>row t. 0 \<le> row \<Longrightarrow> row < ROWS \<Longrightarrow> P row COLS t \<Longrightarrow> P (row + 1) 0 t"
  shows "P ROWS 0 (for_loop 0 ROWS (\<lambda>row. for_loop 0 COLS (body row)) s)"
proof (rule for_loop_rule [where P = "\<lambda>row. P row 0"])
  show "P 0 0 s" by (rule init)
  show "0 \<le> ROWS" by (rule dims)
  show "P (row + 1) 0 (for_loop 0 COLS (body row) t)"
    if "0 \<le> row" "row < ROWS" "P row 0 t" for row t
  proof (rule wrap [OF that(1,2)])
    show "P row COLS (for_loop 0 COLS (body row) t)"
      by (rule for_loop_rule [where P = "P row"]) (use that dims step in auto)
  qed
qed

text \<open>Two runs of a loop whose bodies keep a relation between the states.\<close>

lemma for_loop_rel:
  assumes "Q s t"
    and "\<And>j s t. i \<le> j \<Longrightarrow> j < n \<Longrightarrow> Q s t \<Longrightarrow> Q (body1 j s) (body2 j t)"
  shows "Q (for_loop i n body1 s) (for_loop i n body2 t)"
  using assms
proof (induction i n body1 s arbitrary: t rule: for_loop.induct)
  case (1 i n body1 s)
  show ?case
  proof (cases "i < n")
    case True
    have "Q (for_loop (i + 1) n body1 (body1 i s)) (for_loop (i + 1) n body2 (body2 i t))"
    proof (rule "1.IH" [OF True])
      show "Q (body1 i s) (body2 i t)" using "1.prems" True by simp
      show "Q (body1 j s) (body2 j t)" if "i + 1 \<le> j" "j < n" "Q s t" for j s t
        using that "1.prems"(2) [of j s t] by simp
    qed
    with True show ?thesis by (subst (1 2) for_loop.simps) simp
  next
    case False
    with "1.prems"(1) show ?thesis by (subst (1 2) for_loop.simps) simp
  qed
qed


section \<open>The fill loops\<close>

text \<open>The cells that the two loops have passed when they reach the cell \<open>(row, col)\<close>.\<close>

definition before :: "int \<Rightarrow> int \<Rightarrow> int \<Rightarrow> int \<Rightarrow> int \<Rightarrow> int \<Rightarrow> bool" where
  "before ROWS COLS row col r c =
     (in_bounds ROWS COLS r c \<and> (r < row \<or> (r = row \<and> c < col)))"

text \<open>
  What the placement test leaves true of an open cell, in terms of the cells above it
  and to its left: they are not both open, and neither the two cells above nor the two
  cells to the left are both open.
\<close>

definition well_placed :: "matrix \<Rightarrow> int \<Rightarrow> int \<Rightarrow> bool" where
  "well_placed m r c =
     (\<not> (r > 0 \<and> c > 0 \<and> m (r - 1) c = OPEN \<and> m r (c - 1) = OPEN) \<and>
      \<not> (r > 1 \<and> m (r - 2) c = OPEN \<and> m (r - 1) c = OPEN) \<and>
      \<not> (c > 1 \<and> m r (c - 2) = OPEN \<and> m r (c - 1) = OPEN))"

definition fill_inv ::
  "int \<Rightarrow> int \<Rightarrow> matrix \<Rightarrow> int \<Rightarrow> int \<Rightarrow> matrix \<times> nat \<Rightarrow> bool" where
  "fill_inv ROWS COLS m row col s =
     (case s of (m', k') \<Rightarrow>
        (\<forall>r c. \<not> before ROWS COLS row col r c \<longrightarrow> m' r c = m r c) \<and>
        (\<forall>r c. before ROWS COLS row col r c \<longrightarrow>
           m' r c = OPEN \<or> m' r c = CLOSED \<or>
           (on_border ROWS COLS r c \<and> (m r c = ENTRY \<or> m r c = EXIT) \<and> m' r c = m r c)) \<and>
        (\<forall>r c. before ROWS COLS row col r c \<and> m' r c = OPEN \<longrightarrow> well_placed m' r c))"

lemma before_step:
  assumes "in_bounds ROWS COLS row col"
  shows "before ROWS COLS row (col + 1) r c \<longleftrightarrow> before ROWS COLS row col r c \<or> (r = row \<and> c = col)"
  using assms by (auto simp: before_def in_bounds_def)

lemma before_wrap:
  "before ROWS COLS (row + 1) 0 r c \<longleftrightarrow> before ROWS COLS row COLS r c"
  by (auto simp: before_def in_bounds_def)

lemma before_start: "\<not> before ROWS COLS 0 0 r c"
  by (auto simp: before_def in_bounds_def)

lemma before_end: "before ROWS COLS ROWS 0 r c \<longleftrightarrow> in_bounds ROWS COLS r c"
  by (auto simp: before_def in_bounds_def)

lemma is_valid_well_placed:
  assumes "is_valid_open_cell_placement ROWS COLS m row col"
  shows "well_placed m row col"
  using assms
  by (auto simp: is_valid_open_cell_placement_def count_adjacent_open_cells_def well_placed_def
      split: if_splits)

lemma well_placed_set_cell:
  assumes "r < row \<or> (r = row \<and> c \<le> col)"
  shows "well_placed (set_cell m row col v) r c = well_placed m r c"
  using assms by (auto simp: well_placed_def set_cell_apply)

lemma fill_cell_cases:
  obtains
    (skip) "on_border ROWS COLS row col" "m row col = ENTRY \<or> m row col = EXIT"
      "fill_cell ROWS COLS density rnd row col (m, k) = (m, k)"
  | (opened) "is_valid_open_cell_placement ROWS COLS m row col"
      "real_of_int (int (rnd k)) / real_of_int RAND_MAX \<le> density"
      "fill_cell ROWS COLS density rnd row col (m, k) = (set_cell m row col OPEN, Suc k)"
  | (closed)
      "\<not> (real_of_int (int (rnd k)) / real_of_int RAND_MAX \<le> density \<and>
          is_valid_open_cell_placement ROWS COLS m row col)"
      "fill_cell ROWS COLS density rnd row col (m, k) = (set_cell m row col CLOSED, Suc k)"
  by (cases "on_border ROWS COLS row col \<and> (m row col = ENTRY \<or> m row col = EXIT)";
      cases "real_of_int (int (rnd k)) / real_of_int RAND_MAX \<le> density \<and>
          is_valid_open_cell_placement ROWS COLS m row col")
    (auto simp: rand_def Let_def)

lemma fill_inv_step:
  assumes ib: "in_bounds ROWS COLS row col" and inv: "fill_inv ROWS COLS m row col s"
  shows "fill_inv ROWS COLS m row (col + 1) (fill_cell ROWS COLS density rnd row col s)"
proof -
  obtain m' k' where s: "s = (m', k')" by (cases s)
  from inv s have
    i1: "\<And>r c. \<not> before ROWS COLS row col r c \<Longrightarrow> m' r c = m r c" and
    i2: "\<And>r c. before ROWS COLS row col r c \<Longrightarrow>
           m' r c = OPEN \<or> m' r c = CLOSED \<or>
           (on_border ROWS COLS r c \<and> (m r c = ENTRY \<or> m r c = EXIT) \<and> m' r c = m r c)" and
    i3: "\<And>r c. before ROWS COLS row col r c \<Longrightarrow> m' r c = OPEN \<Longrightarrow> well_placed m' r c"
    by (auto simp: fill_inv_def)
  have here: "\<not> before ROWS COLS row col row col" by (simp add: before_def)
  have lex: "r < row \<or> (r = row \<and> c \<le> col)" "\<not> (r = row \<and> c = col)"
    if "before ROWS COLS row col r c" for r c
    using that by (auto simp: before_def)
  show ?thesis
  proof (cases rule: fill_cell_cases [where ROWS = ROWS and COLS = COLS and row = row and col = col
        and m = m' and rnd = rnd and k = k' and density = density])
    case skip
    have "fill_inv ROWS COLS m row (col + 1) (m', k')"
      unfolding fill_inv_def prod.case before_step [OF ib]
      using i1 i2 i3 skip(1,2) i1 [OF here] by auto
    with skip(3) s show ?thesis by simp
  next
    case opened
    have "fill_inv ROWS COLS m row (col + 1) (set_cell m' row col OPEN, Suc k')"
      unfolding fill_inv_def prod.case before_step [OF ib]
    proof (intro conjI allI impI)
      fix r c
      assume "\<not> (before ROWS COLS row col r c \<or> r = row \<and> c = col)"
      then show "set_cell m' row col OPEN r c = m r c"
        using i1 [of r c] by (auto simp: set_cell_apply)
    next
      fix r c
      assume "before ROWS COLS row col r c \<or> r = row \<and> c = col"
      then show "set_cell m' row col OPEN r c = OPEN \<or> set_cell m' row col OPEN r c = CLOSED \<or>
        (on_border ROWS COLS r c \<and> (m r c = ENTRY \<or> m r c = EXIT) \<and>
         set_cell m' row col OPEN r c = m r c)"
        using i2 [of r c] by (auto simp: set_cell_apply)
    next
      fix r c
      assume a: "(before ROWS COLS row col r c \<or> r = row \<and> c = col) \<and>
        set_cell m' row col OPEN r c = OPEN"
      show "well_placed (set_cell m' row col OPEN) r c"
      proof (cases "r = row \<and> c = col")
        case True
        with is_valid_well_placed [OF opened(1)] show ?thesis
          by (simp add: well_placed_set_cell)
      next
        case False
        with a have b: "before ROWS COLS row col r c" "m' r c = OPEN"
          by (auto simp: set_cell_apply)
        from i3 [OF b] lex(1) [OF b(1)] show ?thesis
          by (simp add: well_placed_set_cell)
      qed
    qed
    with opened(3) s show ?thesis by simp
  next
    case closed
    have "fill_inv ROWS COLS m row (col + 1) (set_cell m' row col CLOSED, Suc k')"
      unfolding fill_inv_def prod.case before_step [OF ib]
    proof (intro conjI allI impI)
      fix r c
      assume "\<not> (before ROWS COLS row col r c \<or> r = row \<and> c = col)"
      then show "set_cell m' row col CLOSED r c = m r c"
        using i1 [of r c] by (auto simp: set_cell_apply)
    next
      fix r c
      assume "before ROWS COLS row col r c \<or> r = row \<and> c = col"
      then show "set_cell m' row col CLOSED r c = OPEN \<or> set_cell m' row col CLOSED r c = CLOSED \<or>
        (on_border ROWS COLS r c \<and> (m r c = ENTRY \<or> m r c = EXIT) \<and>
         set_cell m' row col CLOSED r c = m r c)"
        using i2 [of r c] by (auto simp: set_cell_apply)
    next
      fix r c
      assume a: "(before ROWS COLS row col r c \<or> r = row \<and> c = col) \<and>
        set_cell m' row col CLOSED r c = OPEN"
      then have b: "before ROWS COLS row col r c" "m' r c = OPEN"
        by (auto simp: set_cell_apply split: if_splits)
      from i3 [OF b] lex(1) [OF b(1)] show "well_placed (set_cell m' row col CLOSED) r c"
        by (simp add: well_placed_set_cell)
    qed
    with closed(2) s show ?thesis by simp
  qed
qed

lemma fill_matrix_inv:
  assumes "0 \<le> ROWS" "0 \<le> COLS"
  shows "fill_inv ROWS COLS m ROWS 0 (fill_matrix ROWS COLS density rnd (m, k))"
  unfolding fill_matrix_def
proof (rule for_loop2_rule [where P = "fill_inv ROWS COLS m"])
  show "fill_inv ROWS COLS m 0 0 (m, k)"
    by (simp add: fill_inv_def before_start)
  show "fill_inv ROWS COLS m row (col + 1) (fill_cell ROWS COLS density rnd row col t)"
    if "0 \<le> row" "row < ROWS" "0 \<le> col" "col < COLS" "fill_inv ROWS COLS m row col t"
    for row col t
    using that by (intro fill_inv_step) (simp_all add: in_bounds_def)
  show "fill_inv ROWS COLS m (row + 1) 0 t" if "fill_inv ROWS COLS m row COLS t" for row t
    using that by (simp add: fill_inv_def before_wrap)
qed (use assms in auto)

section \<open>Finding and removing the previous entry and exit points\<close>

definition find_inv :: "int \<Rightarrow> int \<Rightarrow> matrix \<Rightarrow> int \<Rightarrow> int \<Rightarrow> int \<times> int \<times> int \<times> int \<Rightarrow> bool" where
  "find_inv ROWS COLS m row col p =
     (case p of (er, ec, xr, xc) \<Rightarrow>
        ((er = -1 \<and> ec = -1) \<or> (in_bounds ROWS COLS er ec \<and> m er ec = ENTRY)) \<and>
        ((xr = -1 \<and> xc = -1) \<or> (in_bounds ROWS COLS xr xc \<and> m xr xc = EXIT)) \<and>
        ((\<exists>r c. before ROWS COLS row col r c \<and> m r c = ENTRY) \<longrightarrow>
           in_bounds ROWS COLS er ec \<and> m er ec = ENTRY) \<and>
        ((\<exists>r c. before ROWS COLS row col r c \<and> m r c = EXIT) \<longrightarrow>
           in_bounds ROWS COLS xr xc \<and> m xr xc = EXIT))"

lemma find_inv_step:
  assumes ib: "in_bounds ROWS COLS row col" and inv: "find_inv ROWS COLS m row col p"
  shows "find_inv ROWS COLS m row (col + 1) (find_cell m row col p)"
proof -
  obtain er ec xr xc where p: "p = (er, ec, xr, xc)" by (cases p)
  from inv ib show ?thesis
    unfolding p find_inv_def prod.case before_step [OF ib]
    by (cases "m row col = ENTRY"; cases "m row col = EXIT") auto
qed

lemma find_points_inv:
  assumes "0 \<le> ROWS" "0 \<le> COLS"
  shows "find_inv ROWS COLS m ROWS 0 (find_points ROWS COLS m)"
  unfolding find_points_def
proof (rule for_loop2_rule [where P = "find_inv ROWS COLS m"])
  show "find_inv ROWS COLS m 0 0 (- 1, - 1, - 1, - 1)"
    by (simp add: find_inv_def before_start)
  show "find_inv ROWS COLS m row (col + 1) (find_cell m row col t)"
    if "0 \<le> row" "row < ROWS" "0 \<le> col" "col < COLS" "find_inv ROWS COLS m row col t"
    for row col t
    using that by (intro find_inv_step) (simp_all add: in_bounds_def)
  show "find_inv ROWS COLS m (row + 1) 0 t" if "find_inv ROWS COLS m row COLS t" for row t
    using that by (simp add: find_inv_def before_wrap split: prod.splits)
qed (use assms in auto)

text \<open>At most one cell of the grid holds the value \<open>v\<close>.\<close>

definition at_most_one :: "int \<Rightarrow> int \<Rightarrow> matrix \<Rightarrow> char \<Rightarrow> bool" where
  "at_most_one ROWS COLS m v =
     (\<forall>r c r' c'. in_bounds ROWS COLS r c \<and> in_bounds ROWS COLS r' c' \<and> m r c = v \<and> m r' c' = v
        \<longrightarrow> r = r' \<and> c = c')"

lemma remove_points_cells:
  fixes m :: matrix
  assumes "0 \<le> ROWS" "0 \<le> COLS"
  defines "m' \<equiv> remove_points m (find_points ROWS COLS m)"
  shows "m' r c = m r c \<or>
      (in_bounds ROWS COLS r c \<and> (m r c = ENTRY \<or> m r c = EXIT) \<and> m' r c = CLOSED)"
    and "at_most_one ROWS COLS m ENTRY \<Longrightarrow> in_bounds ROWS COLS r c \<Longrightarrow> m' r c \<noteq> ENTRY"
    and "at_most_one ROWS COLS m EXIT \<Longrightarrow> in_bounds ROWS COLS r c \<Longrightarrow> m' r c \<noteq> EXIT"
proof -
  obtain er ec xr xc where p: "find_points ROWS COLS m = (er, ec, xr, xc)"
    by (cases "find_points ROWS COLS m")
  from find_points_inv [OF assms(1,2), of m] p have
    e: "(er = -1 \<and> ec = -1) \<or> (in_bounds ROWS COLS er ec \<and> m er ec = ENTRY)" and
    x: "(xr = -1 \<and> xc = -1) \<or> (in_bounds ROWS COLS xr xc \<and> m xr xc = EXIT)" and
    fe: "\<And>r c. in_bounds ROWS COLS r c \<Longrightarrow> m r c = ENTRY \<Longrightarrow>
          in_bounds ROWS COLS er ec \<and> m er ec = ENTRY" and
    fx: "\<And>r c. in_bounds ROWS COLS r c \<Longrightarrow> m r c = EXIT \<Longrightarrow>
          in_bounds ROWS COLS xr xc \<and> m xr xc = EXIT"
    by (auto simp: find_inv_def before_end)
  have m': "m' r c =
      (if xr \<noteq> -1 \<and> xc \<noteq> -1 \<and> r = xr \<and> c = xc then CLOSED
       else if er \<noteq> -1 \<and> ec \<noteq> -1 \<and> r = er \<and> c = ec then CLOSED else m r c)" for r c
    unfolding m'_def p remove_points_def by (simp add: Let_def set_cell_apply)
  show "m' r c = m r c \<or>
      (in_bounds ROWS COLS r c \<and> (m r c = ENTRY \<or> m r c = EXIT) \<and> m' r c = CLOSED)"
    using e x unfolding m' by (auto simp: in_bounds_def)
  show "m' r c \<noteq> ENTRY" if "at_most_one ROWS COLS m ENTRY" "in_bounds ROWS COLS r c"
  proof
    assume a: "m' r c = ENTRY"
    then have b: "m r c = ENTRY" unfolding m' by (auto split: if_splits)
    from fe [OF that(2) b] have c: "in_bounds ROWS COLS er ec" "m er ec = ENTRY" by simp_all
    with that b have "r = er" "c = ec" unfolding at_most_one_def by blast+
    with a c show False unfolding m' by (auto simp: in_bounds_def split: if_splits)
  qed
  show "m' r c \<noteq> EXIT" if "at_most_one ROWS COLS m EXIT" "in_bounds ROWS COLS r c"
  proof
    assume a: "m' r c = EXIT"
    then have b: "m r c = EXIT" unfolding m' by (auto split: if_splits)
    from fx [OF that(2) b] have c: "in_bounds ROWS COLS xr xc" "m xr xc = EXIT" by simp_all
    with that b have "r = xr" "c = xc" unfolding at_most_one_def by blast+
    with a c show False unfolding m' by (auto simp: in_bounds_def split: if_splits)
  qed
qed

section \<open>Placing the entry and exit points\<close>











subsection \<open>The draw of the exit position\<close>



section \<open>A generation pass\<close>

lemma for_loop_invariant:
  assumes "P s" and "\<And>j t. P t \<Longrightarrow> P (body j t)"
  shows "P (for_loop i n body s)"
  using assms
proof (induction i n body s rule: for_loop.induct)
  case (1 i n body s)
  show ?case
  proof (cases "i < n")
    case True
    have "P (for_loop (i + 1) n body (body i s))"
      by (rule "1.IH" [OF True]) (use "1.prems" in auto)
    with True show ?thesis by (subst for_loop.simps) simp
  next
    case False
    with "1.prems"(1) show ?thesis by (subst for_loop.simps) simp
  qed
qed


lemma int32_cong: "a mod 4294967296 = b mod 4294967296 \<Longrightarrow> int32 a = int32 b"
  unfolding int32_def by (simp add: mod_add_cong)

lemma int32_mod: "int32 x mod 4294967296 = x mod 4294967296"
proof -
  have "int32 x mod 4294967296 = (x + 2147483648 - 2147483648) mod 4294967296"
    unfolding int32_def by (rule mod_diff_left_eq)
  then show ?thesis by simp
qed

lemma int32_edge_length:
  "int32 (int32 (2 * int32 (ROWS + COLS)) - 4) = int32 (2 * (ROWS + COLS) - 4)"
proof (rule int32_cong)
  have "(int32 (2 * int32 (ROWS + COLS)) - 4) mod 4294967296 =
      (2 * int32 (ROWS + COLS) - 4) mod 4294967296"
    by (rule mod_diff_cong) (simp_all add: int32_mod)
  also have "\<dots> = (2 * (ROWS + COLS) - 4) mod 4294967296"
    by (intro mod_diff_cong mod_mult_cong) (simp_all add: int32_mod)
  finally show "(int32 (2 * int32 (ROWS + COLS)) - 4) mod 4294967296 =
      (2 * (ROWS + COLS) - 4) mod 4294967296" .
qed


lemma place_entry_exit_points_eq:
  "place_entry_exit_points ROWS COLS m rnd k =
     (if int32 (2 * (ROWS + COLS) - 4) = 0 then None
      else
        case draw_exit_position rnd (Suc k) (int32 (2 * (ROWS + COLS) - 4))
               (int (rnd k) smod (int32 (2 * (ROWS + COLS) - 4))) of
          None \<Rightarrow> None
        | Some (x, k2) \<Rightarrow>
            Some (fst (for_loop 0 ROWS (\<lambda>row. for_loop 0 COLS (\<lambda>col.
                    place_cell ROWS COLS (int (rnd k) smod (int32 (2 * (ROWS + COLS) - 4))) x row col))
                  (m, 0, False, False)), k2))"
  by (simp add: place_entry_exit_points_def int32_edge_length Let_def rand_def
      split: option.split prod.split)

lemma place_entry_exit_points_SomeE:
  assumes "place_entry_exit_points ROWS COLS m rnd k = Some (m', k')"
  obtains x where "int32 (2 * (ROWS + COLS) - 4) \<noteq> 0"
    and "draw_exit_position rnd (Suc k) (int32 (2 * (ROWS + COLS) - 4))
           (int (rnd k) smod (int32 (2 * (ROWS + COLS) - 4))) = Some (x, k')"
    and "m' = fst (for_loop 0 ROWS (\<lambda>row. for_loop 0 COLS (\<lambda>col.
            place_cell ROWS COLS (int (rnd k) smod (int32 (2 * (ROWS + COLS) - 4))) x row col))
          (m, 0, False, False))"
proof -
  from assms have nz: "int32 (2 * (ROWS + COLS) - 4) \<noteq> 0"
    by (simp add: place_entry_exit_points_eq split: if_splits)
  show thesis
  proof (cases "draw_exit_position rnd (Suc k) (int32 (2 * (ROWS + COLS) - 4))
           (int (rnd k) smod (int32 (2 * (ROWS + COLS) - 4)))")
    case None
    with assms nz show ?thesis by (simp add: place_entry_exit_points_eq)
  next
    case (Some y)
    obtain x k2 where y: "y = (x, k2)" by (cases y)
    from assms nz Some y show ?thesis
      by (intro that [of x]) (simp_all add: place_entry_exit_points_eq)
  qed
qed

text \<open>\<^verbatim>\<open>place_entry_exit_points\<close> writes nothing but the two markers.\<close>

lemma place_entry_exit_points_writes:
  assumes "place_entry_exit_points ROWS COLS m rnd k = Some (m', k')"
  shows "m' r c = m r c \<or> m' r c = ENTRY \<or> m' r c = EXIT"
proof -
  define P :: "matrix \<times> int \<times> bool \<times> bool \<Rightarrow> bool"
    where "P = (\<lambda>s. fst s r c = m r c \<or> fst s r c = ENTRY \<or> fst s r c = EXIT)"
  have step: "P (place_cell ROWS COLS e x row col t)" if "P t" for e x row col t
  proof -
    obtain m1 counter ep xp where t: "t = (m1, counter, ep, xp)" by (cases t)
    from that show ?thesis unfolding t P_def by (auto simp: set_cell_apply)
  qed
  have "P (for_loop 0 ROWS (\<lambda>row. for_loop 0 COLS (\<lambda>col. place_cell ROWS COLS e x row col))
      (m, 0, False, False))" for e x
    by (rule for_loop_invariant, simp add: P_def, rule for_loop_invariant, assumption, rule step)
  with place_entry_exit_points_SomeE [OF assms] show ?thesis
    unfolding P_def by metis
qed







text \<open>The matrix after the fill loops and the removal of the previous points.\<close>

definition refilled :: "int \<Rightarrow> int \<Rightarrow> matrix \<Rightarrow> real \<Rightarrow> (nat \<Rightarrow> nat) \<Rightarrow> nat \<Rightarrow> matrix" where
  "refilled ROWS COLS m density rnd k =
     (let m1 = fst (fill_matrix ROWS COLS density rnd (m, k))
      in remove_points m1 (find_points ROWS COLS m1))"

lemma randomize_matrix_refilled:
  "randomize_matrix ROWS COLS m density rnd k =
     place_entry_exit_points ROWS COLS (refilled ROWS COLS m density rnd k) rnd
       (snd (fill_matrix ROWS COLS density rnd (m, k)))"
  by (simp add: randomize_matrix_def refilled_def Let_def split: prod.splits)

lemma fill_matrix_cells:
  fixes m :: matrix and density :: real and rnd :: "nat \<Rightarrow> nat" and k :: nat
  assumes "0 \<le> ROWS" "0 \<le> COLS"
  defines "m1 \<equiv> fst (fill_matrix ROWS COLS density rnd (m, k))"
  shows "\<not> in_bounds ROWS COLS r c \<Longrightarrow> m1 r c = m r c"
    and "in_bounds ROWS COLS r c \<Longrightarrow> m1 r c = OPEN \<or> m1 r c = CLOSED \<or>
      (on_border ROWS COLS r c \<and> (m r c = ENTRY \<or> m r c = EXIT) \<and> m1 r c = m r c)"
    and "in_bounds ROWS COLS r c \<Longrightarrow> m1 r c = OPEN \<Longrightarrow> well_placed m1 r c"
  using fill_matrix_inv [OF assms(1,2), of m density rnd k]
  unfolding m1_def fill_inv_def by (auto simp: before_end split: prod.splits)


lemma well_placed_mono:
  assumes "\<And>r c. m' r c = OPEN \<Longrightarrow> m r c = OPEN" "well_placed m r c"
  shows "well_placed m' r c"
  using assms unfolding well_placed_def by blast

lemma randomize_matrix_open:
  assumes "randomize_matrix ROWS COLS m density rnd k = Some (m', k')"
    and "in_bounds ROWS COLS r c" "m' r c = OPEN"
  shows "well_placed m' r c"
proof -
  from assms(2) have dims: "0 \<le> ROWS" "0 \<le> COLS" by (simp_all add: in_bounds_def)
  define m1 where "m1 = fst (fill_matrix ROWS COLS density rnd (m, k))"
  define m2 where "m2 = refilled ROWS COLS m density rnd k"
  note f = fill_matrix_cells [OF dims, of _ _ density rnd m k, folded m1_def]
  have m2: "m2 = remove_points m1 (find_points ROWS COLS m1)"
    by (simp add: m2_def refilled_def m1_def Let_def)
  have a: "m2 r c = OPEN \<Longrightarrow> m1 r c = OPEN" for r c
    using remove_points_cells(1) [OF dims, of m1 r c] by (auto simp: m2)
  from assms(1) have p: "place_entry_exit_points ROWS COLS m2 rnd
      (snd (fill_matrix ROWS COLS density rnd (m, k))) = Some (m', k')"
    by (simp add: randomize_matrix_refilled m2_def)
  have b: "m' r c = OPEN \<Longrightarrow> m2 r c = OPEN" for r c
    using place_entry_exit_points_writes [OF p, of r c] by auto
  from assms(3) have "m1 r c = OPEN" by (simp add: a b)
  with f(3) [OF assms(2)] have "well_placed m1 r c" by simp
  then show ?thesis by (rule well_placed_mono [rotated]) (simp add: a b)
qed



lemma reset_matrix_cells:
  "reset_matrix ROWS COLS m r c = (if in_bounds ROWS COLS r c then CLOSED else m r c)"
proof (cases "0 \<le> ROWS \<and> 0 \<le> COLS")
  case True
  define P where "P = (\<lambda>row col (m' :: matrix).
      \<forall>r c. m' r c = (if before ROWS COLS row col r c then CLOSED else m r c))"
  have "P ROWS 0 (for_loop 0 ROWS (\<lambda>row. for_loop 0 COLS (\<lambda>col m'. set_cell m' row col CLOSED)) m)"
  proof (rule for_loop2_rule [where P = P])
    show "P 0 0 m" by (simp add: P_def before_start)
    show "P row (col + 1) (set_cell t row col CLOSED)"
      if "0 \<le> row" "row < ROWS" "0 \<le> col" "col < COLS" "P row col t" for row col t
    proof -
      from that have "in_bounds ROWS COLS row col" by (simp add: in_bounds_def)
      from before_step [OF this] that(5) show ?thesis
        by (auto simp: P_def set_cell_apply before_def)
    qed
    show "P (row + 1) 0 t" if "P row COLS t" for row t
      using that by (simp add: P_def before_wrap)
  qed (use True in auto)
  then show ?thesis by (simp add: reset_matrix_def P_def before_end)
next
  case False
  have "reset_matrix ROWS COLS m = m"
  proof (cases "0 \<le> ROWS")
    case True
    with False have "COLS \<le> 0" by simp
    then have skip: "for_loop 0 COLS body t = t" for body :: "int \<Rightarrow> matrix \<Rightarrow> matrix" and t
      by (rule for_loop_skip)
    show ?thesis
      unfolding reset_matrix_def
      by (rule for_loop_invariant [where P = "\<lambda>m'. m' = m"]) (simp_all add: skip)
  next
    case False
    then show ?thesis unfolding reset_matrix_def by (simp add: for_loop_skip)
  qed
  with False show ?thesis by (auto simp: in_bounds_def)
qed




section \<open>Density zero\<close>






lemmas generator_defs =
  generate_matrix_def reset_matrix_def randomize_matrix_def fill_matrix_def find_points_def
  remove_points_def place_entry_exit_points_def int32_def on_border_def rand_def RAND_MAX_def
  is_valid_open_cell_placement_def count_adjacent_open_cells_def set_cell_apply
  smod_int_alt_def for_loop.simps draw_exit_position.simps matrix_rows_def matrix_of_def
  upto_rec1 Let_def

lemma matrix_rows_nth:
  assumes "in_bounds ROWS COLS r c"
  shows "matrix_rows ROWS COLS m ! nat r ! nat c = m r c"
proof -
  from assms have r: "nat r < length [0..ROWS - 1]" "[0..ROWS - 1] ! nat r = r"
    and c: "nat c < length [0..COLS - 1]" "[0..COLS - 1] ! nat c = c"
    by (simp_all add: in_bounds_def)
  then show ?thesis by (simp add: matrix_rows_def)
qed

lemma rows_of_result:
  assumes "map_option (\<lambda>(m, k). matrix_rows ROWS COLS m) res = Some rows"
  obtains m' k' where "res = Some (m', k')" "matrix_rows ROWS COLS m' = rows"
  using assms by (cases res) auto

lemma no_three_above:
  assumes "well_placed m r2 c" and "r2 = r0 + 2" "r1 = r0 + 1" "0 \<le> r0"
    and "m r0 c = OPEN" "m r1 c = OPEN"
  shows False
proof -
  from assms(2,3) have e: "r2 - 2 = r0" "r2 - 1 = r1" by simp_all
  from assms(1) have "\<not> (r2 > 1 \<and> m (r2 - 2) c = OPEN \<and> m (r2 - 1) c = OPEN)"
    unfolding well_placed_def by blast
  then have "\<not> (r2 > 1 \<and> m r0 c = OPEN \<and> m r1 c = OPEN)" unfolding e .
  moreover from assms(2,4) have "r2 > 1" by simp
  ultimately show False using assms(5,6) by blast
qed

lemma no_three_left:
  assumes "well_placed m r c2" and "c2 = c0 + 2" "c1 = c0 + 1" "0 \<le> c0"
    and "m r c0 = OPEN" "m r c1 = OPEN"
  shows False
proof -
  from assms(2,3) have e: "c2 - 2 = c0" "c2 - 1 = c1" by simp_all
  from assms(1) have "\<not> (c2 > 1 \<and> m r (c2 - 2) = OPEN \<and> m r (c2 - 1) = OPEN)"
    unfolding well_placed_def by blast
  then have "\<not> (c2 > 1 \<and> m r c0 = OPEN \<and> m r c1 = OPEN)" unfolding e .
  moreover from assms(2,4) have "c2 > 1" by simp
  ultimately show False using assms(5,6) by blast
qed

section \<open>A pass reads the cells of the grid only\<close>

text \<open>Two matrices that hold the same values in all cells of the grid.\<close>

definition agree :: "int \<Rightarrow> int \<Rightarrow> matrix \<Rightarrow> matrix \<Rightarrow> bool" where
  "agree ROWS COLS a b = (\<forall>r c. in_bounds ROWS COLS r c \<longrightarrow> a r c = b r c)"

lemma agreeD: "agree ROWS COLS a b \<Longrightarrow> in_bounds ROWS COLS r c \<Longrightarrow> a r c = b r c"
  by (simp add: agree_def)

lemma agree_set_cell:
  "agree ROWS COLS a b \<Longrightarrow> agree ROWS COLS (set_cell a row col v) (set_cell b row col v)"
  by (simp add: agree_def set_cell_apply)

lemma agree_reset: "agree ROWS COLS (reset_matrix ROWS COLS a) (reset_matrix ROWS COLS b)"
  by (simp add: agree_def reset_matrix_cells)

lemma count_adjacent_open_cells_agree:
  assumes "agree ROWS COLS a b" "in_bounds ROWS COLS row col"
  shows "count_adjacent_open_cells ROWS COLS a row col =
    count_adjacent_open_cells ROWS COLS b row col"
proof -
  from assms(2) have b: "0 \<le> row" "row < ROWS" "0 \<le> col" "col < COLS"
    by (simp_all add: in_bounds_def)
  have up: "(row > 0 \<and> a (row - 1) col = OPEN) = (row > 0 \<and> b (row - 1) col = OPEN)"
    using agreeD [OF assms(1), of "row - 1" col] b by (auto simp: in_bounds_def)
  have down: "(row < ROWS - 1 \<and> a (row + 1) col = OPEN) =
      (row < ROWS - 1 \<and> b (row + 1) col = OPEN)"
    using agreeD [OF assms(1), of "row + 1" col] b by (auto simp: in_bounds_def)
  have left: "(col > 0 \<and> a row (col - 1) = OPEN) = (col > 0 \<and> b row (col - 1) = OPEN)"
    using agreeD [OF assms(1), of row "col - 1"] b by (auto simp: in_bounds_def)
  have right: "(col < COLS - 1 \<and> a row (col + 1) = OPEN) =
      (col < COLS - 1 \<and> b row (col + 1) = OPEN)"
    using agreeD [OF assms(1), of row "col + 1"] b by (auto simp: in_bounds_def)
  show ?thesis unfolding count_adjacent_open_cells_def up down left right ..
qed

lemma is_valid_open_cell_placement_agree:
  assumes "agree ROWS COLS a b" "in_bounds ROWS COLS row col"
  shows "is_valid_open_cell_placement ROWS COLS a row col =
    is_valid_open_cell_placement ROWS COLS b row col"
proof -
  have eq: "a (row + i) (col + j) = b (row + i) (col + j)"
    if "0 \<le> row + i" "row + i < ROWS" "0 \<le> col + j" "col + j < COLS" for i j
    using agreeD [OF assms(1), of "row + i" "col + j"] that by (simp add: in_bounds_def)
  from assms(2) have b: "0 \<le> row" "row < ROWS" "0 \<le> col" "col < COLS"
    by (simp_all add: in_bounds_def)
  have here: "a row col = b row col" using eq [of 0 0] b by simp
  have up: "row > 0 \<Longrightarrow> a (row - 1) col = b (row - 1) col"
    using eq [of "-1" 0] b by simp
  have down: "row < ROWS - 1 \<Longrightarrow> a (row + 1) col = b (row + 1) col"
    using eq [of 1 0] b by simp
  have left: "col > 0 \<Longrightarrow> a row (col - 1) = b row (col - 1)"
    using eq [of 0 "-1"] b by simp
  have right: "col < COLS - 1 \<Longrightarrow> a row (col + 1) = b row (col + 1)"
    using eq [of 0 1] b by simp
  have ul: "row > 0 \<Longrightarrow> col > 0 \<Longrightarrow> a (row - 1) (col - 1) = b (row - 1) (col - 1)"
    using eq [of "-1" "-1"] b by simp
  have dr: "row < ROWS - 1 \<Longrightarrow> col < COLS - 1 \<Longrightarrow> a (row + 1) (col + 1) = b (row + 1) (col + 1)"
    using eq [of 1 1] b by simp
  have ur: "row > 0 \<Longrightarrow> col < COLS - 1 \<Longrightarrow> a (row - 1) (col + 1) = b (row - 1) (col + 1)"
    using eq [of "-1" 1] b by simp
  have dl: "row < ROWS - 1 \<Longrightarrow> col > 0 \<Longrightarrow> a (row + 1) (col - 1) = b (row + 1) (col - 1)"
    using eq [of 1 "-1"] b by simp
  have up2: "row > 1 \<Longrightarrow> a (row - 2) col = b (row - 2) col"
    using eq [of "-2" 0] b by simp
  have down2: "row < ROWS - 2 \<Longrightarrow> a (row + 2) col = b (row + 2) col"
    using eq [of 2 0] b by simp
  have left2: "col > 1 \<Longrightarrow> a row (col - 2) = b row (col - 2)"
    using eq [of 0 "-2"] b by simp
  have right2: "col < COLS - 2 \<Longrightarrow> a row (col + 2) = b row (col + 2)"
    using eq [of 0 2] b by simp
  have c1: "(row > 0 \<and> row < ROWS - 1 \<and> a (row - 1) col = OPEN \<and> a (row + 1) col = OPEN) =
      (row > 0 \<and> row < ROWS - 1 \<and> b (row - 1) col = OPEN \<and> b (row + 1) col = OPEN)"
    using up down by auto
  have c2: "(col > 0 \<and> col < COLS - 1 \<and> a row (col - 1) = OPEN \<and> a row (col + 1) = OPEN) =
      (col > 0 \<and> col < COLS - 1 \<and> b row (col - 1) = OPEN \<and> b row (col + 1) = OPEN)"
    using left right by auto
  have c3: "(row > 0 \<and> row < ROWS - 1 \<and> col > 0 \<and> col < COLS - 1 \<and>
        a (row - 1) (col - 1) = OPEN \<and> a (row + 1) (col + 1) = OPEN) =
      (row > 0 \<and> row < ROWS - 1 \<and> col > 0 \<and> col < COLS - 1 \<and>
        b (row - 1) (col - 1) = OPEN \<and> b (row + 1) (col + 1) = OPEN)"
    using ul dr by auto
  have c4: "(row > 0 \<and> row < ROWS - 1 \<and> col > 0 \<and> col < COLS - 1 \<and>
        a (row - 1) (col + 1) = OPEN \<and> a (row + 1) (col - 1) = OPEN) =
      (row > 0 \<and> row < ROWS - 1 \<and> col > 0 \<and> col < COLS - 1 \<and>
        b (row - 1) (col + 1) = OPEN \<and> b (row + 1) (col - 1) = OPEN)"
    using ur dl by auto
  have c5: "(row > 1 \<and> a (row - 2) col = OPEN \<and> a (row - 1) col = OPEN) =
      (row > 1 \<and> b (row - 2) col = OPEN \<and> b (row - 1) col = OPEN)"
    using up up2 by auto
  have c6: "(row < ROWS - 2 \<and> a (row + 2) col = OPEN \<and> a (row + 1) col = OPEN) =
      (row < ROWS - 2 \<and> b (row + 2) col = OPEN \<and> b (row + 1) col = OPEN)"
    using down down2 by auto
  have c7: "(col > 1 \<and> a row (col - 2) = OPEN \<and> a row (col - 1) = OPEN) =
      (col > 1 \<and> b row (col - 2) = OPEN \<and> b row (col - 1) = OPEN)"
    using left left2 by auto
  have c8: "(col < COLS - 2 \<and> a row (col + 2) = OPEN \<and> a row (col + 1) = OPEN) =
      (col < COLS - 2 \<and> b row (col + 2) = OPEN \<and> b row (col + 1) = OPEN)"
    using right right2 by auto
  show ?thesis
    unfolding is_valid_open_cell_placement_def
      count_adjacent_open_cells_agree [OF assms] here c1 c2 c3 c4 c5 c6 c7 c8 ..
qed

text \<open>The relation that two runs of the fill loops keep.\<close>

definition same_fill :: "int \<Rightarrow> int \<Rightarrow> matrix \<times> nat \<Rightarrow> matrix \<times> nat \<Rightarrow> bool" where
  "same_fill ROWS COLS s t = (agree ROWS COLS (fst s) (fst t) \<and> snd s = snd t)"

lemma fill_cell_agree:
  assumes "same_fill ROWS COLS s t" "in_bounds ROWS COLS row col"
  shows "same_fill ROWS COLS (fill_cell ROWS COLS density rnd row col s)
    (fill_cell ROWS COLS density rnd row col t)"
proof -
  obtain a i where s: "s = (a, i)" by (cases s)
  obtain b j where t: "t = (b, j)" by (cases t)
  from assms(1) s t have ab: "agree ROWS COLS a b" and ij: "j = i"
    by (simp_all add: same_fill_def)
  from agreeD [OF ab assms(2)] have here: "a row col = b row col" .
  note v = is_valid_open_cell_placement_agree [OF ab assms(2)]
  show ?thesis
    unfolding s t ij using ab here v
    by (simp add: same_fill_def rand_def Let_def agree_set_cell)
qed

lemma fill_matrix_agree:
  assumes "agree ROWS COLS a b"
  shows "same_fill ROWS COLS (fill_matrix ROWS COLS density rnd (a, k))
    (fill_matrix ROWS COLS density rnd (b, k))"
  unfolding fill_matrix_def
proof (rule for_loop_rel [where Q = "same_fill ROWS COLS"])
  show "same_fill ROWS COLS (a, k) (b, k)" using assms by (simp add: same_fill_def)
  show "same_fill ROWS COLS (for_loop 0 COLS (fill_cell ROWS COLS density rnd row) s)
      (for_loop 0 COLS (fill_cell ROWS COLS density rnd row) t)"
    if "0 \<le> row" "row < ROWS" "same_fill ROWS COLS s t" for row s t
  proof (rule for_loop_rel [where Q = "same_fill ROWS COLS"])
    show "same_fill ROWS COLS s t" by (rule that)
    show "same_fill ROWS COLS (fill_cell ROWS COLS density rnd row col s)
        (fill_cell ROWS COLS density rnd row col t)"
      if "0 \<le> col" "col < COLS" "same_fill ROWS COLS s t" for col s t
      using that(3) by (rule fill_cell_agree) (use that \<open>0 \<le> row\<close> \<open>row < ROWS\<close> in \<open>simp add: in_bounds_def\<close>)
  qed
qed

lemma find_points_agree:
  assumes "agree ROWS COLS a b"
  shows "find_points ROWS COLS a = find_points ROWS COLS b"
  unfolding find_points_def
proof (rule for_loop_rel [where Q = "(=)"])
  show "for_loop 0 COLS (find_cell a row) s = for_loop 0 COLS (find_cell b row) t"
    if "0 \<le> row" "row < ROWS" "s = t" for row s t
  proof (rule for_loop_rel [where Q = "(=)"])
    show "s = t" by (rule that)
    show "find_cell a row col s = find_cell b row col t"
      if "0 \<le> col" "col < COLS" "s = t" for col s t
    proof -
      from that \<open>0 \<le> row\<close> \<open>row < ROWS\<close> have "in_bounds ROWS COLS row col"
        by (simp add: in_bounds_def)
      from agreeD [OF assms this] that(3) show ?thesis
        by (cases t) simp
    qed
  qed
qed simp

lemma remove_points_agree:
  assumes "agree ROWS COLS a b"
  shows "agree ROWS COLS (remove_points a p) (remove_points b p)"
  using assms by (cases p) (simp add: remove_points_def Let_def agree_set_cell)

text \<open>The relation that two runs of the placement loops keep.\<close>

definition same_place ::
  "int \<Rightarrow> int \<Rightarrow> matrix \<times> int \<times> bool \<times> bool \<Rightarrow> matrix \<times> int \<times> bool \<times> bool \<Rightarrow> bool" where
  "same_place ROWS COLS s t = (agree ROWS COLS (fst s) (fst t) \<and> snd s = snd t)"

lemma place_cell_agree:
  assumes "same_place ROWS COLS s t"
  shows "same_place ROWS COLS (place_cell ROWS COLS e x row col s) (place_cell ROWS COLS e x row col t)"
proof -
  obtain a counter ep xp where s: "s = (a, counter, ep, xp)" by (cases s)
  obtain b where t: "t = (b, counter, ep, xp)" using assms s by (cases t) (simp add: same_place_def)
  from assms show ?thesis unfolding s t by (auto simp: same_place_def intro: agree_set_cell)
qed

text \<open>The relation between the results of two passes.\<close>

definition same_result :: "int \<Rightarrow> int \<Rightarrow> (matrix \<times> nat) option \<Rightarrow> (matrix \<times> nat) option \<Rightarrow> bool" where
  "same_result ROWS COLS x y =
     (case (x, y) of
        (None, None) \<Rightarrow> True
      | (Some (a, i), Some (b, j)) \<Rightarrow> agree ROWS COLS a b \<and> i = j
      | _ \<Rightarrow> False)"

lemma place_entry_exit_points_agree:
  assumes "agree ROWS COLS a b"
  shows "same_result ROWS COLS (place_entry_exit_points ROWS COLS a rnd k)
    (place_entry_exit_points ROWS COLS b rnd k)"
proof -
  have "agree ROWS COLS
      (fst (for_loop 0 ROWS (\<lambda>row. for_loop 0 COLS (\<lambda>col. place_cell ROWS COLS e x row col))
         (a, 0, False, False)))
      (fst (for_loop 0 ROWS (\<lambda>row. for_loop 0 COLS (\<lambda>col. place_cell ROWS COLS e x row col))
         (b, 0, False, False)))" for e x
  proof -
    have "same_place ROWS COLS
      (for_loop 0 ROWS (\<lambda>row. for_loop 0 COLS (\<lambda>col. place_cell ROWS COLS e x row col))
         (a, 0, False, False))
      (for_loop 0 ROWS (\<lambda>row. for_loop 0 COLS (\<lambda>col. place_cell ROWS COLS e x row col))
         (b, 0, False, False))"
    proof (rule for_loop_rel [where Q = "same_place ROWS COLS"])
      show "same_place ROWS COLS (a, 0, False, False) (b, 0, False, False)"
        using assms by (simp add: same_place_def)
      show "same_place ROWS COLS (for_loop 0 COLS (place_cell ROWS COLS e x row) s)
          (for_loop 0 COLS (place_cell ROWS COLS e x row) t)"
        if "same_place ROWS COLS s t" for row s t
        using that by (rule for_loop_rel) (rule place_cell_agree)
    qed
    then show ?thesis by (simp add: same_place_def)
  qed
  then show ?thesis
    by (simp add: place_entry_exit_points_eq same_result_def split: option.split)
qed

lemma randomize_matrix_agree:
  assumes "agree ROWS COLS a b"
  shows "same_result ROWS COLS (randomize_matrix ROWS COLS a density rnd k)
    (randomize_matrix ROWS COLS b density rnd k)"
proof -
  obtain a1 i where fa: "fill_matrix ROWS COLS density rnd (a, k) = (a1, i)"
    by (cases "fill_matrix ROWS COLS density rnd (a, k)")
  obtain b1 j where fb: "fill_matrix ROWS COLS density rnd (b, k) = (b1, j)"
    by (cases "fill_matrix ROWS COLS density rnd (b, k)")
  from fill_matrix_agree [OF assms, of density rnd k] fa fb
  have ab: "agree ROWS COLS a1 b1" and ij: "j = i" by (simp_all add: same_fill_def)
  have "agree ROWS COLS (remove_points a1 (find_points ROWS COLS a1))
      (remove_points b1 (find_points ROWS COLS b1))"
    unfolding find_points_agree [OF ab] using ab by (rule remove_points_agree)
  then show ?thesis
    unfolding randomize_matrix_def fa fb ij prod.case by (rule place_entry_exit_points_agree)
qed

lemma generate_matrix_agree:
  "same_result ROWS COLS (generate_matrix ROWS COLS m1 density rnd k)
     (generate_matrix ROWS COLS m2 density rnd k)"
  unfolding generate_matrix_def by (rule randomize_matrix_agree) (rule agree_reset)

lemma same_result_cases:
  assumes "same_result ROWS COLS x y"
  shows "(x = None \<and> y = None) \<or>
    (\<exists>a b i. x = Some (a, i) \<and> y = Some (b, i) \<and> agree ROWS COLS a b)"
  using assms by (auto simp: same_result_def split: option.splits)

lemma rows_and_state_of_result:
  assumes "map_option (\<lambda>(m, k). (matrix_rows ROWS COLS m, k)) res = Some (rows, k')"
  obtains m' where "res = Some (m', k')" "matrix_rows ROWS COLS m' = rows"
  using assms by (cases res) auto

text \<open>
  A sequence of random numbers for the examples of two passes in a row: the draws 1, 3
  and 11 are 0, the draws 9 and 20 are 6, the draws 10 and 21 are 7, and all others are
  \<^verbatim>\<open>RAND_MAX\<close>.
\<close>

definition draws :: "nat \<Rightarrow> nat" where
  "draws k = (if k \<in> {1, 3, 11} then 0 else if k \<in> {9, 20} then 6
     else if k \<in> {10, 21} then 7 else 2147483647)"





section \<open>The claims about the generator\<close>




text \<open>
  What the placement test leaves in the grid. In every grid produced by a pass of
  \<^verbatim>\<open>randomize_matrix\<close>, every open cell satisfies: its upper and its left neighbour are
  not both open; it is not the middle of three open cells in a row or in a column; and
  neither the two cells above it, nor the two below it, nor the two to its left, nor the
  two to its right are both open.
\<close>

lemma open_cells_well_placed:
  assumes "randomize_matrix ROWS COLS m density rnd k = Some (m', k')"
    and "in_bounds ROWS COLS r c" "m' r c = OPEN"
  shows "\<not> (0 < r \<and> 0 < c \<and> m' (r - 1) c = OPEN \<and> m' r (c - 1) = OPEN) \<and>
    \<not> (0 < r \<and> r < ROWS - 1 \<and> m' (r - 1) c = OPEN \<and> m' (r + 1) c = OPEN) \<and>
    \<not> (0 < c \<and> c < COLS - 1 \<and> m' r (c - 1) = OPEN \<and> m' r (c + 1) = OPEN) \<and>
    \<not> (1 < r \<and> m' (r - 2) c = OPEN \<and> m' (r - 1) c = OPEN) \<and>
    \<not> (r < ROWS - 2 \<and> m' (r + 2) c = OPEN \<and> m' (r + 1) c = OPEN) \<and>
    \<not> (1 < c \<and> m' r (c - 2) = OPEN \<and> m' r (c - 1) = OPEN) \<and>
    \<not> (c < COLS - 2 \<and> m' r (c + 2) = OPEN \<and> m' r (c + 1) = OPEN)"
proof -
  note w = randomize_matrix_open [OF assms(1)]
  from assms(2) have b: "0 \<le> r" "r < ROWS" "0 \<le> c" "c < COLS" by (simp_all add: in_bounds_def)
  have here: "well_placed m' r c" using assms(2,3) by (rule w)
  have "\<not> (0 < r \<and> r < ROWS - 1 \<and> m' (r - 1) c = OPEN \<and> m' (r + 1) c = OPEN)"
  proof
    assume a: "0 < r \<and> r < ROWS - 1 \<and> m' (r - 1) c = OPEN \<and> m' (r + 1) c = OPEN"
    with b have "well_placed m' (r + 1) c" by (intro w) (simp_all add: in_bounds_def)
    then show False
      by (rule no_three_above [where ?r0.0 = "r - 1" and ?r1.0 = r]) (use a assms(3) in simp_all)
  qed
  moreover have "\<not> (r < ROWS - 2 \<and> m' (r + 2) c = OPEN \<and> m' (r + 1) c = OPEN)"
  proof
    assume a: "r < ROWS - 2 \<and> m' (r + 2) c = OPEN \<and> m' (r + 1) c = OPEN"
    with b have "well_placed m' (r + 2) c" by (intro w) (simp_all add: in_bounds_def)
    then show False
      by (rule no_three_above [where ?r0.0 = r and ?r1.0 = "r + 1"]) (use a b assms(3) in simp_all)
  qed
  moreover have "\<not> (0 < c \<and> c < COLS - 1 \<and> m' r (c - 1) = OPEN \<and> m' r (c + 1) = OPEN)"
  proof
    assume a: "0 < c \<and> c < COLS - 1 \<and> m' r (c - 1) = OPEN \<and> m' r (c + 1) = OPEN"
    with b have "well_placed m' r (c + 1)" by (intro w) (simp_all add: in_bounds_def)
    then show False
      by (rule no_three_left [where ?c0.0 = "c - 1" and ?c1.0 = c]) (use a assms(3) in simp_all)
  qed
  moreover have "\<not> (c < COLS - 2 \<and> m' r (c + 2) = OPEN \<and> m' r (c + 1) = OPEN)"
  proof
    assume a: "c < COLS - 2 \<and> m' r (c + 2) = OPEN \<and> m' r (c + 1) = OPEN"
    with b have "well_placed m' r (c + 2)" by (intro w) (simp_all add: in_bounds_def)
    then show False
      by (rule no_three_left [where ?c0.0 = c and ?c1.0 = "c + 1"]) (use a b assms(3) in simp_all)
  qed
  ultimately show ?thesis using here unfolding well_placed_def by blast
qed

lemma open_cells_well_placed_example:
  "\<exists>m' k'. randomize_matrix 3 3 (matrix_of [''X.X'', ''X.X'', ''XEX'']) (1 / 2) (\<lambda>k. k + 1) 0 =
       Some (m', k') \<and>
     matrix_rows 3 3 m' = ['' SE'', '' X '', ''XX ''] \<and> in_bounds 3 3 1 2 \<and> m' 1 2 = OPEN \<and>
     \<not> (m' 0 2 = OPEN \<and> m' 1 1 = OPEN) \<and> \<not> (m' 0 2 = OPEN \<and> m' 2 2 = OPEN) \<and>
     \<not> (m' 1 0 = OPEN \<and> m' 1 1 = OPEN)"
proof -
  have "map_option (\<lambda>(m, k). matrix_rows 3 3 m)
      (randomize_matrix 3 3 (matrix_of [''X.X'', ''X.X'', ''XEX'']) (1 / 2) (\<lambda>k. k + 1) 0) =
      Some ['' SE'', '' X '', ''XX '']"
    by (simp add: generator_defs cell_defs)
  then obtain m' k' where
    r: "randomize_matrix 3 3 (matrix_of [''X.X'', ''X.X'', ''XEX'']) (1 / 2) (\<lambda>k. k + 1) 0 =
      Some (m', k')" "matrix_rows 3 3 m' = ['' SE'', '' X '', ''XX '']"
    by (rule rows_of_result)
  have ib: "in_bounds 3 3 1 2" by (simp add: in_bounds_def)
  from matrix_rows_nth [OF ib, of m'] r(2) have o: "m' 1 2 = OPEN"
    by (simp add: cell_defs)
  from open_cells_well_placed [OF r(1) ib o] r ib o show ?thesis by auto
qed

text \<open>
  C2. \<^verbatim>\<open>is_valid_open_cell_placement\<close> is evaluated once for each cell, when the fill
  loops reach it, on the cells decided so far; the cells decided later are not tested
  against it again. In this grid, produced from a reset grid, the open cell (2, 2) is
  not next to the entry or the exit, has two open neighbours, (2, 1) and (3, 2), and is
  the middle of the open diagonal (1, 1), (2, 2), (3, 3), which the comment of the
  test (``no more than two open cells are in a straight line or diagonal'') excludes.
\<close>

theorem three_open_on_diagonal:
  "map_option (\<lambda>(m, k). matrix_rows 5 5 m)
     (generate_matrix 5 5 (\<lambda>r c. CLOSED) (1 / 2)
        (\<lambda>k. if k \<in> {6, 11, 12, 17, 18, 25} then 0 else if k = 26 then 1 else 2147483647) 0) =
   Some [''SEXXX'', ''X XXX'', ''X  XX'', ''XX  X'', ''XXXXX''] \<and>
   count_adjacent_open_cells 5 5
     (matrix_of [''SEXXX'', ''X XXX'', ''X  XX'', ''XX  X'', ''XXXXX'']) 2 2 = 2 \<and>
   matrix_of [''SEXXX'', ''X XXX'', ''X  XX'', ''XX  X'', ''XXXXX''] 1 1 = OPEN \<and>
   matrix_of [''SEXXX'', ''X XXX'', ''X  XX'', ''XX  X'', ''XXXXX''] 2 2 = OPEN \<and>
   matrix_of [''SEXXX'', ''X XXX'', ''X  XX'', ''XX  X'', ''XXXXX''] 3 3 = OPEN"
  by (simp add: generator_defs cell_defs)

text \<open>
  C3 (amended). The first pass of the generation worker, \<^verbatim>\<open>generate_matrix\<close>, begins by
  resetting every cell of the grid to \<^verbatim>\<open>CLOSED\<close>, so that no decision of its fill depends
  on leftover values: started on two grids \<open>m1\<close> and \<open>m2\<close> whatever with the same random
  numbers, it returns in both cases or in neither, and when it returns, the two grids
  hold the same cells and the random generator is in the same state.
\<close>

theorem first_pass_resets:
  "(\<forall>r c. in_bounds ROWS COLS r c \<longrightarrow> reset_matrix ROWS COLS m1 r c = CLOSED) \<and>
   ((generate_matrix ROWS COLS m1 density rnd k = None \<and>
     generate_matrix ROWS COLS m2 density rnd k = None) \<or>
    (\<exists>a b k'. generate_matrix ROWS COLS m1 density rnd k = Some (a, k') \<and>
       generate_matrix ROWS COLS m2 density rnd k = Some (b, k') \<and>
       (\<forall>r c. in_bounds ROWS COLS r c \<longrightarrow> a r c = b r c)))"
proof
  show "\<forall>r c. in_bounds ROWS COLS r c \<longrightarrow> reset_matrix ROWS COLS m1 r c = CLOSED"
    by (simp add: reset_matrix_cells)
  from same_result_cases [OF generate_matrix_agree [of ROWS COLS m1 density rnd k m2]]
  show "(generate_matrix ROWS COLS m1 density rnd k = None \<and>
     generate_matrix ROWS COLS m2 density rnd k = None) \<or>
    (\<exists>a b k'. generate_matrix ROWS COLS m1 density rnd k = Some (a, k') \<and>
       generate_matrix ROWS COLS m2 density rnd k = Some (b, k') \<and>
       (\<forall>r c. in_bounds ROWS COLS r c \<longrightarrow> a r c = b r c))"
    unfolding agree_def .
qed

theorem first_pass_resets_witness:
  "matrix_rows 3 3 (reset_matrix 3 3 (matrix_of [''X X'', '' XX'', ''XSE''])) =
     [''XXX'', ''XXX'', ''XXX''] \<and>
   (\<exists>a b k'. generate_matrix 3 3 (matrix_of [''X X'', '' XX'', ''XSE'']) (1 / 2) draws 11 =
        Some (a, k') \<and>
      generate_matrix 3 3 (\<lambda>r c. CHR ''?'') (1 / 2) draws 11 = Some (b, k') \<and>
      matrix_rows 3 3 a = ['' XX'', ''XXX'', ''XSE''] \<and>
      matrix_rows 3 3 b = ['' XX'', ''XXX'', ''XSE''])"
proof -
  let ?l = "matrix_of [''X X'', '' XX'', ''XSE'']"
  have r: "matrix_rows 3 3 (reset_matrix 3 3 ?l) = [''XXX'', ''XXX'', ''XXX'']"
    by (simp add: generator_defs cell_defs)
  have "map_option (\<lambda>(m, k). (matrix_rows 3 3 m, k)) (generate_matrix 3 3 ?l (1 / 2) draws 11) =
      Some (['' XX'', ''XXX'', ''XSE''], 22)"
    by (simp add: generator_defs cell_defs draws_def)
  then obtain a where a: "generate_matrix 3 3 ?l (1 / 2) draws 11 = Some (a, 22)"
    "matrix_rows 3 3 a = ['' XX'', ''XXX'', ''XSE'']"
    by (rule rows_and_state_of_result)
  from first_pass_resets [of 3 3 ?l "1 / 2" draws 11 "\<lambda>r c. CHR ''?''"] a(1)
  obtain b where b: "generate_matrix 3 3 (\<lambda>r c. CHR ''?'') (1 / 2) draws 11 = Some (b, 22)"
    "\<forall>r c. in_bounds 3 3 r c \<longrightarrow> a r c = b r c"
    by auto
  from b(2) have "matrix_rows 3 3 b = matrix_rows 3 3 a"
    unfolding all_in_bounds by (simp add: matrix_rows_def upto_rec1)
  with r a b(1) show ?thesis by simp
qed

text \<open>
  C3 as stated fails for the passes that the generation worker repeats: they are calls
  of \<^verbatim>\<open>randomize_matrix\<close>, which resets no cell. Here the first pass leaves the cells
  (0, 1) and (1, 0) open. In the second pass the draw for the cell (0, 0), the first of
  the scan, is 0, under the density 1/2; the cell stays closed, since the placement
  test counts its two open neighbours left by the first pass. A pass that resets the
  grid first, on the same grid with the same random numbers, opens the cell.
\<close>

theorem leftover_cells_counterexample:
  "map_option (\<lambda>(m, k). (matrix_rows 3 3 m, k))
     (generation_passes 3 3 (1 / 2) draws 0 (\<lambda>r c. CHR ''?'') 0) =
     Some ([''X X'', '' XX'', ''XSE''], 11) \<and>
   map_option (\<lambda>(m, k). (matrix_rows 3 3 m, k))
     (generation_passes 3 3 (1 / 2) draws 1 (\<lambda>r c. CHR ''?'') 0) =
     Some ([''XXX'', ''XXX'', ''XES''], 21) \<and>
   map_option (\<lambda>(m, k). (matrix_rows 3 3 m, k))
     (randomize_matrix 3 3 (matrix_of [''X X'', '' XX'', ''XSE'']) (1 / 2) draws 11) =
     Some ([''XXX'', ''XXX'', ''XES''], 21) \<and>
   map_option (\<lambda>(m, k). (matrix_rows 3 3 m, k))
     (generate_matrix 3 3 (matrix_of [''X X'', '' XX'', ''XSE'']) (1 / 2) draws 11) =
     Some (['' XX'', ''XXX'', ''XSE''], 22)"
  by (simp add: generator_defs cell_defs draws_def)




end
